theory Spec2Isabelle
  imports Main "HOL-Library.Sublist"
begin

section \<open>Strings of the JavaScript runtime\<close>

text \<open>
  A JavaScript string is a sequence of UTF-16 code units. The model uses \<^typ>\<open>string\<close>,
  whose characters are 8-bit, read as the code units below 256 (ASCII and the Latin-1
  supplement). White space is the set that \<^verbatim>\<open>String.prototype.trim\<close> and the regular
  expression class \<^verbatim>\<open>\s\<close> recognise in that range: TAB, LF, VT, FF, CR, SPACE and NBSP.
\<close>

definition is_ws :: "char \<Rightarrow> bool" where
  "is_ws c \<longleftrightarrow> c \<in> set [CHR 0x09, CHR 0x0A, CHR 0x0B, CHR 0x0C, CHR 0x0D, CHR '' '', CHR 0xA0]"

definition is_digit :: "char \<Rightarrow> bool" where
  "is_digit c \<longleftrightarrow> c \<in> set ''0123456789''"

definition is_alpha :: "char \<Rightarrow> bool" where
  "is_alpha c \<longleftrightarrow> c \<in> set ''abcdefghijklmnopqrstuvwxyzABCDEFGHIJKLMNOPQRSTUVWXYZ''"

definition digit_val :: "char \<Rightarrow> nat" where
  "digit_val c = of_char c - 48"

text \<open>\<^verbatim>\<open>String.prototype.trim\<close>: white space removed at both ends.\<close>

definition trim :: "string \<Rightarrow> string" where
  "trim s = rev (dropWhile is_ws (rev (dropWhile is_ws s)))"

text \<open>
  \<^verbatim>\<open>String.prototype.toLowerCase\<close> on code units below 256: \<open>A\<close>-\<open>Z\<close> and the
  upper-case letters of the Latin-1 supplement (0xC0-0xDE without the multiplication sign
  0xD7) move up by 32; every other code unit stays.
\<close>

definition lower_char :: "char \<Rightarrow> char" where
  "lower_char c =
     (let n = (of_char c :: nat)
      in if (65 \<le> n \<and> n \<le> 90) \<or> (192 \<le> n \<and> n \<le> 222 \<and> n \<noteq> 215)
         then char_of (n + 32) else c)"

definition toLowerCase :: "string \<Rightarrow> string" where
  "toLowerCase s = map lower_char s"

section \<open>Scripture normalizer (sermons.js)\<close>

text \<open>
  The argument of \<^verbatim>\<open>normalizeScripture\<close> and of \<^verbatim>\<open>parseDuration\<close> is any JavaScript
  value. The functions only tell strings, falsy values and the rest apart: \<open>NonString\<close>
  stands for every truthy value that is not a string (an object, an array, a non-zero
  number), and a falsy value that is not a string (0, \<open>NaN\<close>, \<^verbatim>\<open>false\<close>) behaves like
  \<open>Undefined\<close> in both.
\<close>

datatype jsval = Undefined | Null | Str string | NonString

text \<open>
  The object literal \<^verbatim>\<open>bookNormalization\<close>. None of its keys is an array index, so
  \<^verbatim>\<open>Object.entries\<close> enumerates them in the order they are written.
\<close>

definition bookNormalization :: "(string \<times> string) list" where
  "bookNormalization =
   [(''genesis'', ''Genesis''),
    (''gen'', ''Genesis''),
    (''exodus'', ''Exodus''),
    (''exod'', ''Exodus''),
    (''leviticus'', ''Leviticus''),
    (''lev'', ''Leviticus''),
    (''numbers'', ''Numbers''),
    (''num'', ''Numbers''),
    (''deuteronomy'', ''Deuteronomy''),
    (''deut'', ''Deuteronomy''),
    (''joshua'', ''Joshua''),
    (''josh'', ''Joshua''),
    (''judges'', ''Judges''),
    (''judg'', ''Judges''),
    (''ruth'', ''Ruth''),
    (''1 samuel'', ''1 Samuel''),
    (''1 sam'', ''1 Samuel''),
    (''2 samuel'', ''2 Samuel''),
    (''2 sam'', ''2 Samuel''),
    (''1 kings'', ''1 Kings''),
    (''1 kgs'', ''1 Kings''),
    (''2 kings'', ''2 Kings''),
    (''2 kgs'', ''2 Kings''),
    (''1 chronicles'', ''1 Chronicles''),
    (''1 chr'', ''1 Chronicles''),
    (''2 chronicles'', ''2 Chronicles''),
    (''2 chr'', ''2 Chronicles''),
    (''ezra'', ''Ezra''),
    (''nehemiah'', ''Nehemiah''),
    (''neh'', ''Nehemiah''),
    (''esther'', ''Esther''),
    (''esth'', ''Esther''),
    (''job'', ''Job''),
    (''psalms'', ''Psalms''),
    (''psalm'', ''Psalms''),
    (''ps'', ''Psalms''),
    (''proverbs'', ''Proverbs''),
    (''prov'', ''Proverbs''),
    (''ecclesiastes'', ''Ecclesiastes''),
    (''eccl'', ''Ecclesiastes''),
    (''song of solomon'', ''Song of Solomon''),
    (''song of songs'', ''Song of Solomon''),
    (''song'', ''Song of Solomon''),
    (''isaiah'', ''Isaiah''),
    (''isa'', ''Isaiah''),
    (''jeremiah'', ''Jeremiah''),
    (''jer'', ''Jeremiah''),
    (''lamentations'', ''Lamentations''),
    (''lam'', ''Lamentations''),
    (''ezekiel'', ''Ezekiel''),
    (''ezek'', ''Ezekiel''),
    (''daniel'', ''Daniel''),
    (''dan'', ''Daniel''),
    (''hosea'', ''Hosea''),
    (''hos'', ''Hosea''),
    (''joel'', ''Joel''),
    (''amos'', ''Amos''),
    (''obadiah'', ''Obadiah''),
    (''obad'', ''Obadiah''),
    (''jonah'', ''Jonah''),
    (''micah'', ''Micah''),
    (''mic'', ''Micah''),
    (''nahum'', ''Nahum''),
    (''nah'', ''Nahum''),
    (''habakkuk'', ''Habakkuk''),
    (''hab'', ''Habakkuk''),
    (''zephaniah'', ''Zephaniah''),
    (''zeph'', ''Zephaniah''),
    (''haggai'', ''Haggai''),
    (''hag'', ''Haggai''),
    (''zechariah'', ''Zechariah''),
    (''zech'', ''Zechariah''),
    (''malachi'', ''Malachi''),
    (''mal'', ''Malachi''),
    (''matthew'', ''Matthew''),
    (''matt'', ''Matthew''),
    (''mark'', ''Mark''),
    (''luke'', ''Luke''),
    (''john'', ''John''),
    (''acts'', ''Acts''),
    (''romans'', ''Romans''),
    (''rom'', ''Romans''),
    (''1 corinthians'', ''1 Corinthians''),
    (''1 cor'', ''1 Corinthians''),
    (''2 corinthians'', ''2 Corinthians''),
    (''2 cor'', ''2 Corinthians''),
    (''galatians'', ''Galatians''),
    (''galations'', ''Galatians''),
    (''gal'', ''Galatians''),
    (''ephesians'', ''Ephesians''),
    (''eph'', ''Ephesians''),
    (''philippians'', ''Philippians''),
    (''phillipians'', ''Philippians''),
    (''phil'', ''Philippians''),
    (''colossians'', ''Colossians''),
    (''col'', ''Colossians''),
    (''1 thessalonians'', ''1 Thessalonians''),
    (''1 thess'', ''1 Thessalonians''),
    (''2 thessalonians'', ''2 Thessalonians''),
    (''2 thess'', ''2 Thessalonians''),
    (''1 timothy'', ''1 Timothy''),
    (''1 tim'', ''1 Timothy''),
    (''2 timothy'', ''2 Timothy''),
    (''2 tim'', ''2 Timothy''),
    (''titus'', ''Titus''),
    (''philemon'', ''Philemon''),
    (''phlm'', ''Philemon''),
    (''hebrews'', ''Hebrews''),
    (''heb'', ''Hebrews''),
    (''james'', ''James''),
    (''jas'', ''James''),
    (''1 peter'', ''1 Peter''),
    (''1 pet'', ''1 Peter''),
    (''2 peter'', ''2 Peter''),
    (''2 pet'', ''2 Peter''),
    (''1 john'', ''1 John''),
    (''2 john'', ''2 John''),
    (''3 john'', ''3 John''),
    (''jude'', ''Jude''),
    (''revelation'', ''Revelation''),
    (''rev'', ''Revelation'')]"

text \<open>The test of the loop body: \<^verbatim>\<open>lowerText.startsWith(variant + " ") || lowerText === variant\<close>.\<close>

definition alias_matches :: "string \<Rightarrow> string \<times> string \<Rightarrow> bool" where
  "alias_matches lowerText e \<longleftrightarrow> prefix (fst e @ '' '') lowerText \<or> lowerText = fst e"

text \<open>
  \<^verbatim>\<open>normalizeScripture\<close>. A falsy or non-string argument gives the empty string; the loop
  returns at the first entry that matches, so it is \<^const>\<open>find\<close> over the entries.
\<close>

definition normalizeScripture :: "jsval \<Rightarrow> string" where
  "normalizeScripture text =
     (case text of
        Str s \<Rightarrow>
          if s = [] then []
          else
            (let cleaned = trim s;
                 lowerText = toLowerCase cleaned
             in case find (alias_matches lowerText) bookNormalization of
                  Some (variant, canonical) \<Rightarrow>
                    (let remainder = trim (drop (length variant) cleaned)
                     in canonical @ (if remainder \<noteq> [] then '' '' @ remainder else []))
                | None \<Rightarrow> cleaned)
      | _ \<Rightarrow> [])"

text \<open>
  The remaining definitions of this section describe the table and serve the proofs: the
  proper prefixes of a key that end just before a space, the grouping of the entries by
  canonical name, and the shape of the text that follows a matched alias.
\<close>

fun heads_from :: "string \<Rightarrow> string \<Rightarrow> string list" where
  "heads_from acc [] = []"
| "heads_from acc (x # xs) =
     (if x = CHR '' '' then rev acc # heads_from (x # acc) xs else heads_from (x # acc) xs)"

fun grouped :: "string option \<Rightarrow> (string \<times> string) list \<Rightarrow> bool" where
  "grouped cur [] = True"
| "grouped cur (e # r) =
     (if fst e = toLowerCase (snd e) then grouped (Some (snd e)) r
      else cur = Some (snd e) \<and> grouped cur r)"

definition tail_ok :: "string \<Rightarrow> bool" where
  "tail_ok t \<longleftrightarrow> t = [] \<or> hd t = CHR '' ''"

definition near :: "string \<Rightarrow> string \<times> string \<Rightarrow> bool" where
  "near u e \<longleftrightarrow> fst e = u \<or> prefix (fst e @ '' '') u \<or> prefix (u @ '' '') (fst e)"

section \<open>Numbers, sorting and sets of the JavaScript runtime\<close>

text \<open>
  A JavaScript number is a double. The model tracks the integers that a double holds
  exactly (magnitude at most \<open>2^53\<close>) and \<open>NaN\<close>; any other number value (fractions,
  infinities, integers beyond that range) is \<open>Untracked\<close>: the model then says nothing
  about which number it is. \<open>NaN\<close> absorbs every operand, as in IEEE arithmetic.
\<close>

datatype jsnum = NaN | Fin int | Untracked

definition max_exact :: int where
  "max_exact = 2 ^ 53"

definition exact :: "int \<Rightarrow> jsnum" where
  "exact n = (if \<bar>n\<bar> \<le> max_exact then Fin n else Untracked)"

fun jmul :: "jsnum \<Rightarrow> jsnum \<Rightarrow> jsnum" where
  "jmul NaN _ = NaN"
| "jmul _ NaN = NaN"
| "jmul (Fin a) (Fin b) = exact (a * b)"
| "jmul _ _ = Untracked"

fun jadd :: "jsnum \<Rightarrow> jsnum \<Rightarrow> jsnum" where
  "jadd NaN _ = NaN"
| "jadd _ NaN = NaN"
| "jadd (Fin a) (Fin b) = exact (a + b)"
| "jadd _ _ = Untracked"

definition dec_value :: "string \<Rightarrow> int" where
  "dec_value ds = foldl (\<lambda>acc c. acc * 10 + int (digit_val c)) 0 ds"

text \<open>
  The value of a digit in a radix up to 16, and of a string of such digits.
\<close>

definition hex_val :: "char \<Rightarrow> nat option" where
  "hex_val c =
     (if is_digit c then Some (digit_val c)
      else if c \<in> set ''abcdef'' then Some (of_char c - 87)
      else if c \<in> set ''ABCDEF'' then Some (of_char c - 55)
      else None)"

definition radix_value :: "nat \<Rightarrow> string \<Rightarrow> int" where
  "radix_value r ds =
     foldl (\<lambda>acc c. acc * int r + int (case hex_val c of Some v \<Rightarrow> v | None \<Rightarrow> 0)) 0 ds"

text \<open>
  The grammar of the numeric literals that \<^verbatim>\<open>Number\<close> accepts in a string
  (\<^verbatim>\<open>StrNumericLiteral\<close> of the language specification): a binary, octal or hexadecimal
  integer after \<^verbatim>\<open>0b\<close>, \<^verbatim>\<open>0o\<close>, \<^verbatim>\<open>0x\<close>, without sign; or, after an optional sign,
  \<^verbatim>\<open>Infinity\<close> or a decimal literal: digits, an optional fraction (one of the two sides
  of the point may be empty, not both) and an optional exponent.
\<close>

definition radix_of :: "string \<Rightarrow> nat option" where
  "radix_of t =
     (if prefix ''0x'' t \<or> prefix ''0X'' t then Some 16
      else if prefix ''0o'' t \<or> prefix ''0O'' t then Some 8
      else if prefix ''0b'' t \<or> prefix ''0B'' t then Some 2
      else None)"

definition radix_literal :: "string \<Rightarrow> bool" where
  "radix_literal t =
     (case radix_of t of
        None \<Rightarrow> False
      | Some r \<Rightarrow>
          drop 2 t \<noteq> []
          \<and> list_all (\<lambda>c. case hex_val c of Some v \<Rightarrow> v < r | None \<Rightarrow> False) (drop 2 t))"

definition unsigned :: "string \<Rightarrow> string" where
  "unsigned t = (if prefix ''+'' t \<or> prefix ''-'' t then tl t else t)"

definition sign_of :: "string \<Rightarrow> int" where
  "sign_of t = (if prefix ''-'' t then - 1 else 1)"

definition exponent_part :: "string \<Rightarrow> bool" where
  "exponent_part r =
     (case r of
        [] \<Rightarrow> False
      | e # x \<Rightarrow>
          (e = CHR ''e'' \<or> e = CHR ''E'')
          \<and> unsigned x \<noteq> [] \<and> list_all is_digit (unsigned x))"

definition decimal_literal :: "string \<Rightarrow> bool" where
  "decimal_literal u =
     (let ip = takeWhile is_digit u;
          r1 = dropWhile is_digit u;
          fp = (if prefix ''.'' r1 then takeWhile is_digit (tl r1) else []);
          r2 = (if prefix ''.'' r1 then dropWhile is_digit (tl r1) else r1)
      in (ip \<noteq> [] \<or> fp \<noteq> []) \<and> (r2 = [] \<or> exponent_part r2))"

definition numeric_literal :: "string \<Rightarrow> bool" where
  "numeric_literal t \<longleftrightarrow>
     radix_literal t \<or> unsigned t = ''Infinity'' \<or> decimal_literal (unsigned t)"

text \<open>
  \<^verbatim>\<open>Number(s)\<close> on a string: white space is trimmed; the empty string is 0; a string that
  is not a numeric literal is \<open>NaN\<close>. The value of an integer literal (decimal digits
  with an optional sign, or a radix literal) is tracked when a double holds it exactly;
  the value of every other literal (fraction, exponent, infinity, larger integers) is a
  floating-point number the model does not track. The model does not tell \<open>-0\<close> from 0.
\<close>

definition Number_of_string :: "string \<Rightarrow> jsnum" where
  "Number_of_string s =
     (let t = trim s
      in if t = [] then Fin 0
         else if \<not> numeric_literal t then NaN
         else (case radix_of t of
                 Some r \<Rightarrow> exact (radix_value r (drop 2 t))
               | None \<Rightarrow>
                   if list_all is_digit (unsigned t)
                   then exact (sign_of t * dec_value (unsigned t))
                   else Untracked))"

text \<open>A component that is neither blank nor a numeric literal.\<close>

definition non_numeric :: "string \<Rightarrow> bool" where
  "non_numeric p \<longleftrightarrow> trim p \<noteq> [] \<and> \<not> numeric_literal (trim p)"

text \<open>\<^verbatim>\<open>String.prototype.split\<close> with a one-character separator.\<close>

fun split_on :: "char \<Rightarrow> string \<Rightarrow> string list" where
  "split_on c [] = [[]]"
| "split_on c (x # xs) =
     (if x = c then [] # split_on c xs
      else (case split_on c xs of
              part # parts \<Rightarrow> (x # part) # parts
            | [] \<Rightarrow> [[x]]))"

text \<open>The decimal rendering of a natural number, as a template literal prints it.\<close>

function show_nat :: "nat \<Rightarrow> string" where
  "show_nat n =
     (if n < 10 then [char_of (48 + n)]
      else show_nat (n div 10) @ [char_of (48 + n mod 10)])"
  by pat_completeness auto
termination
  by (relation "measure id") auto

text \<open>
  \<^verbatim>\<open>Array.prototype.sort\<close> with a comparator, whose result is read by its sign. The
  language fixes the result only for a comparator that orders the elements at hand
  consistently: the result is then the one stable sorted arrangement, which the stable
  insertion sort below computes. For any other comparator the order is left to the
  implementation; the result is still an arrangement of the same elements, and the
  model's list stands for it only as far as that.
\<close>

fun insert_by :: "('a \<Rightarrow> 'a \<Rightarrow> int) \<Rightarrow> 'a \<Rightarrow> 'a list \<Rightarrow> 'a list" where
  "insert_by cmp x [] = [x]"
| "insert_by cmp x (y # ys) =
     (if cmp x y \<le> 0 then x # y # ys else y # insert_by cmp x ys)"

definition sort_by :: "('a \<Rightarrow> 'a \<Rightarrow> int) \<Rightarrow> 'a list \<Rightarrow> 'a list" where
  "sort_by cmp xs = foldr (insert_by cmp) xs []"

text \<open>
  A comparator is consistent on the elements of a list when the sign of comparing two of
  them turns around with the arguments, and when its ordering is transitive.
\<close>

definition consistent_on :: "('a \<Rightarrow> 'a \<Rightarrow> int) \<Rightarrow> 'a list \<Rightarrow> bool" where
  "consistent_on cmp xs \<longleftrightarrow>
     list_all (\<lambda>a. list_all (\<lambda>b.
         (cmp a b < 0 \<longleftrightarrow> 0 < cmp b a)
         \<and> list_all (\<lambda>c. cmp a b \<le> 0 \<and> cmp b c \<le> 0 \<longrightarrow> cmp a c \<le> 0) xs) xs) xs"

text \<open>\<^verbatim>\<open>[...new Set(xs)]\<close>: the first occurrence of every element, in order.\<close>

definition dedupe :: "'a list \<Rightarrow> 'a list" where
  "dedupe xs = rev (remdups (rev xs))"

text \<open>Comparison of two sequences of weights, the first difference deciding.\<close>

fun lex_cmp :: "nat list \<Rightarrow> nat list \<Rightarrow> int" where
  "lex_cmp [] [] = 0"
| "lex_cmp [] (y # ys) = - 1"
| "lex_cmp (x # xs) [] = 1"
| "lex_cmp (x # xs) (y # ys) = (if x < y then - 1 else if y < x then 1 else lex_cmp xs ys)"

text \<open>The default comparison of \<^verbatim>\<open>sort()\<close> on strings: by code unit.\<close>

definition code_unit_cmp :: "string \<Rightarrow> string \<Rightarrow> int" where
  "code_unit_cmp a b = lex_cmp (map of_char a) (map of_char b)"

text \<open>
  \<^verbatim>\<open>String.prototype.localeCompare\<close> with the default collation (CLDR root, as for
  \<^verbatim>\<open>en-US\<close>), on the characters a book name is made of: white space, decimal digits
  and ASCII letters. White space sorts before digits and digits before letters; letters
  are compared without regard to case first, and only on a tie does lower case come
  before upper case (and SPACE before NBSP). Characters outside these classes do not
  occur in a book name; the model places them after the letters, by code unit.
\<close>

definition primary_weight :: "char \<Rightarrow> nat" where
  "primary_weight c =
     (if c = CHR 0x09 then 1 else if c = CHR 0x0A then 2 else if c = CHR 0x0B then 3
      else if c = CHR 0x0C then 4 else if c = CHR 0x0D then 5
      else if c = CHR '' '' \<or> c = CHR 0xA0 then 9
      else if is_digit c then 20 + digit_val c
      else if is_alpha c then 100 + of_char (lower_char c)
      else 1000 + of_char c)"

definition tertiary_weight :: "char \<Rightarrow> nat" where
  "tertiary_weight c = (if c = CHR 0xA0 \<or> (is_alpha c \<and> lower_char c \<noteq> c) then 1 else 0)"

definition localeCompare :: "string \<Rightarrow> string \<Rightarrow> int" where
  "localeCompare a b =
     (let p = lex_cmp (map primary_weight a) (map primary_weight b)
      in if p \<noteq> 0 then p else lex_cmp (map tertiary_weight a) (map tertiary_weight b))"

section \<open>Sermon feed (sermons.js)\<close>

datatype js_error = TypeError | RangeError | Rejected string

text \<open>
  \<^verbatim>\<open>extractBook\<close>: the match of \<^verbatim>\<open>/^(\d?\s?[A-Za-z]+)/\<close>, trimmed. Each optional
  part is taken when it can be: giving it up never lets the letters match, since a digit
  or a white space character is not a letter.
\<close>

definition extractBook :: "string \<Rightarrow> string" where
  "extractBook scripture =
     (if scripture = [] then []
      else
        (let d = (if is_digit (hd scripture) then [hd scripture] else []);
             r1 = drop (length d) scripture;
             w = (if r1 \<noteq> [] \<and> is_ws (hd r1) then [hd r1] else []);
             r2 = drop (length w) r1;
             letters = takeWhile is_alpha r2
         in if letters = [] then [] else trim (d @ w @ letters)))"

text \<open>
  \<^verbatim>\<open>parseDuration\<close>. A falsy argument gives 0. \<^verbatim>\<open>split\<close> exists on strings only, so
  any other truthy value (\<open>NonString\<close>) raises a TypeError. The two tests on
  \<^verbatim>\<open>parts.length\<close> and the final \<^verbatim>\<open>return 0\<close> are the three equations on the list of
  the parts.
\<close>

fun seconds_of_parts :: "jsnum list \<Rightarrow> jsnum" where
  "seconds_of_parts [p0, p1, p2] = jadd (jadd (jmul p0 (Fin 3600)) (jmul p1 (Fin 60))) p2"
| "seconds_of_parts [p0, p1] = jadd (jmul p0 (Fin 60)) p1"
| "seconds_of_parts parts = Fin 0"

definition parseDuration :: "jsval \<Rightarrow> js_error + jsnum" where
  "parseDuration durationStr =
     (case durationStr of
        Undefined \<Rightarrow> Inr (Fin 0)
      | Null \<Rightarrow> Inr (Fin 0)
      | NonString \<Rightarrow> Inl TypeError
      | Str s \<Rightarrow>
          if s = [] then Inr (Fin 0)
          else Inr (seconds_of_parts (map Number_of_string (split_on CHR '':'' s))))"

text \<open>
  What the runtime's \<^verbatim>\<open>Date\<close> does is a parameter: parsing a date string (\<open>None\<close> is
  an invalid date), the renderings of a time value, the calendar year in the local time
  zone, and the clock.
\<close>

record date_runtime =
  parse_date :: "string \<Rightarrow> int option"
  toISOString :: "int \<Rightarrow> string"
  toLocaleDateString :: "int option \<Rightarrow> string"
  getFullYear :: "int \<Rightarrow> int"
  clock :: int

definition new_Date :: "date_runtime \<Rightarrow> string option \<Rightarrow> int option" where
  "new_Date rt v = (case v of None \<Rightarrow> None | Some s \<Rightarrow> parse_date rt s)"

text \<open>
  A feed item as the feed parser delivers it: every field is a string or absent
  (\<^verbatim>\<open>enclosure_url\<close> is \<^verbatim>\<open>item.enclosure?.url\<close>).
\<close>

record feed_item =
  item_title :: "string option"
  item_speaker :: "string option"
  item_content :: "string option"
  item_description :: "string option"
  item_pubDate :: "string option"
  item_isoDate :: "string option"
  item_subtitle :: "string option"
  item_duration :: "string option"
  item_enclosure_url :: "string option"
  item_link :: "string option"
  item_guid :: "string option"

record feed =
  feed_items :: "feed_item list"
  feed_title :: "string option"
  feed_lastBuildDate :: "string option"

record sermon =
  sermon_id :: nat
  title :: string
  speaker :: string
  date :: "string option"
  dateFormatted :: string
  isoDate :: string
  year :: "int option"
  scripture :: string
  scriptureNormalized :: string
  book :: string
  series :: string
  duration :: string
  durationSeconds :: jsnum
  audioUrl :: string
  link :: string
  guid :: string


text \<open>\<^verbatim>\<open>a || b\<close> on an optional string: absent and empty are falsy.\<close>

definition or_else :: "string option \<Rightarrow> string \<Rightarrow> string" where
  "or_else v dflt = (case v of None \<Rightarrow> dflt | Some s \<Rightarrow> if s = [] then dflt else s)"

definition to_jsval :: "string option \<Rightarrow> jsval" where
  "to_jsval v = (case v of None \<Rightarrow> Undefined | Some s \<Rightarrow> Str s)"

text \<open>\<^verbatim>\<open>item.content || item.description || ""\<close>\<close>

definition scripture_of :: "feed_item \<Rightarrow> string" where
  "scripture_of item = or_else (item_content item) (or_else (item_description item) [])"

text \<open>
  \<^verbatim>\<open>item.isoDate || dateObj.toISOString()\<close>: \<^verbatim>\<open>toISOString\<close> raises a RangeError on an
  invalid date; it is only called when the item has no \<^verbatim>\<open>isoDate\<close>.
\<close>

definition iso_of :: "date_runtime \<Rightarrow> feed_item \<Rightarrow> int option \<Rightarrow> js_error + string" where
  "iso_of rt item dateObj =
     (if or_else (item_isoDate item) [] \<noteq> [] then Inr (or_else (item_isoDate item) [])
      else (case dateObj of None \<Rightarrow> Inl RangeError | Some t \<Rightarrow> Inr (toISOString rt t)))"

text \<open>
  The callback of \<^verbatim>\<open>feed.items.map\<close>. The fields are evaluated in the order of the
  object literal, so \<^verbatim>\<open>isoDate\<close> can raise before \<^verbatim>\<open>durationSeconds\<close> does.
\<close>

definition make_sermon :: "date_runtime \<Rightarrow> nat \<Rightarrow> feed_item \<Rightarrow> js_error + sermon" where
  "make_sermon rt index item =
     (let scripture = scripture_of item;
          normalizedScripture = normalizeScripture (Str scripture);
          book = extractBook normalizedScripture;
          dateObj = new_Date rt (item_pubDate item)
      in case iso_of rt item dateObj of
           Inl e \<Rightarrow> Inl e
         | Inr isoStr \<Rightarrow>
             (case parseDuration (to_jsval (item_duration item)) of
                Inl e \<Rightarrow> Inl e
              | Inr secs \<Rightarrow>
                  Inr \<lparr> sermon_id = index,
                        title = or_else (item_title item) ''Untitled Sermon'',
                        speaker = or_else (item_speaker item) ''Unknown Speaker'',
                        date = item_pubDate item,
                        dateFormatted = toLocaleDateString rt dateObj,
                        isoDate = isoStr,
                        year = map_option (getFullYear rt) dateObj,
                        scripture = scripture,
                        scriptureNormalized = normalizedScripture,
                        book = book,
                        series = or_else (item_subtitle item) [],
                        duration = or_else (item_duration item) [],
                        durationSeconds = secs,
                        audioUrl = or_else (item_enclosure_url item) [],
                        link = or_else (item_link item) [],
                        guid = or_else (item_guid item)
                                 (or_else (item_link item) (''sermon-'' @ show_nat index)) \<rparr>))"

text \<open>\<^verbatim>\<open>feed.items.map\<close> stops at the first callback that raises.\<close>

fun map_items :: "date_runtime \<Rightarrow> nat \<Rightarrow> feed_item list \<Rightarrow> js_error + sermon list" where
  "map_items rt index [] = Inr []"
| "map_items rt index (item # items) =
     (case make_sermon rt index item of
        Inl e \<Rightarrow> Inl e
      | Inr s \<Rightarrow>
          (case map_items rt (Suc index) items of
             Inl e \<Rightarrow> Inl e
           | Inr ss \<Rightarrow> Inr (s # ss)))"

text \<open>
  The comparators. A difference of two dates is \<open>NaN\<close> when one of them is invalid, and
  \<^verbatim>\<open>sort\<close> reads \<open>NaN\<close> as 0.
\<close>

definition diff_or_zero :: "int option \<Rightarrow> int option \<Rightarrow> int" where
  "diff_or_zero x y = (case (x, y) of (Some a, Some b) \<Rightarrow> a - b | _ \<Rightarrow> 0)"

definition by_date_desc :: "date_runtime \<Rightarrow> sermon \<Rightarrow> sermon \<Rightarrow> int" where
  "by_date_desc rt a b = diff_or_zero (new_Date rt (date b)) (new_Date rt (date a))"

text \<open>
  The comparator of the books facet: \<^verbatim>\<open>aNum\<close> is the match of \<^verbatim>\<open>/^(\d+)/\<close>, \<^verbatim>\<open>aName\<close>
  the string without the match of \<^verbatim>\<open>/^\d+\s*/\<close>. The difference of the two numbers is
  the exact one, which is what the code computes as long as a double holds both numbers
  exactly; a book has a leading number of one digit at most.
\<close>

definition leading_number :: "string \<Rightarrow> string option" where
  "leading_number a = (if takeWhile is_digit a = [] then None else Some (takeWhile is_digit a))"

definition strip_number :: "string \<Rightarrow> string" where
  "strip_number a =
     (if takeWhile is_digit a = [] then a else dropWhile is_ws (dropWhile is_digit a))"

definition books_cmp :: "string \<Rightarrow> string \<Rightarrow> int" where
  "books_cmp a b =
     (let aNum = leading_number a;
          bNum = leading_number b;
          aName = strip_number a;
          bName = strip_number b
      in case (aNum, bNum) of
           (Some m, Some n) \<Rightarrow>
             if aName = bName then dec_value m - dec_value n
             else localeCompare a b
         | _ \<Rightarrow> localeCompare a b)"

text \<open>
  A book in the form \<^verbatim>\<open>extractBook\<close> gives it for a canonical name of the table: letters
  only, or one decimal digit, one SPACE and letters.
\<close>

definition canonical_book :: "string \<Rightarrow> bool" where
  "canonical_book b \<longleftrightarrow>
     (case b of
        [] \<Rightarrow> False
      | c # r \<Rightarrow>
          if is_digit c
          then (case r of [] \<Rightarrow> False
                | s # n \<Rightarrow> s = CHR '' '' \<and> n \<noteq> [] \<and> list_all is_alpha n)
          else list_all is_alpha b)"

definition speakers_facet :: "sermon list \<Rightarrow> string list" where
  "speakers_facet sermons = sort_by code_unit_cmp (dedupe (map speaker sermons))"

definition books_of :: "string list \<Rightarrow> string list" where
  "books_of bs = sort_by books_cmp (dedupe (filter (\<lambda>b. b \<noteq> []) bs))"

definition books_facet :: "sermon list \<Rightarrow> string list" where
  "books_facet sermons = books_of (map book sermons)"

definition years_facet :: "date_runtime \<Rightarrow> sermon list \<Rightarrow> int option list" where
  "years_facet rt sermons =
     sort_by (\<lambda>a b. diff_or_zero b a)
       (dedupe (map (\<lambda>s. map_option (getFullYear rt) (new_Date rt (date s))) sermons))"

record sermon_meta =
  total :: nat
  speakers :: "string list"
  books :: "string list"
  years :: "int option list"
  feedTitle :: string
  lastBuildDate :: string
  error :: "js_error option"

record sermon_collection =
  items :: "sermon list"
  meta :: sermon_meta

text \<open>
  The exported function. Its argument is the outcome of fetching and parsing the feed;
  a failure there, or a callback that raises, is caught and gives the empty collection.
\<close>

definition sermons_data :: "date_runtime \<Rightarrow> js_error + feed \<Rightarrow> sermon_collection" where
  "sermons_data rt fetched =
     (case (case fetched of Inl e \<Rightarrow> Inl e
                          | Inr f \<Rightarrow> (case map_items rt 0 (feed_items f) of
                                       Inl e \<Rightarrow> Inl e | Inr ss \<Rightarrow> Inr (f, ss))) of
        Inr (f, mapped) \<Rightarrow>
          (let sermons = sort_by (by_date_desc rt) mapped
           in \<lparr> items = sermons,
                meta = \<lparr> total = length sermons,
                         speakers = speakers_facet sermons,
                         books = books_facet sermons,
                         years = years_facet rt sermons,
                         feedTitle = or_else (feed_title f) ''Sermons'',
                         lastBuildDate = or_else (feed_lastBuildDate f) (toISOString rt (clock rt)),
                         error = None \<rparr> \<rparr>)
      | Inl e \<Rightarrow>
          \<lparr> items = [],
            meta = \<lparr> total = 0, speakers = [], books = [], years = [],
                     feedTitle = ''Sermons'',
                     lastBuildDate = toISOString rt (clock rt),
                     error = Some e \<rparr> \<rparr>)"

text \<open>
  For the examples: a runtime in which every date string parses to the epoch, and an item
  with a publication date and no other field.
\<close>

definition epoch_runtime :: date_runtime where
  "epoch_runtime =
     \<lparr> parse_date = (\<lambda>s. Some 0), toISOString = (\<lambda>t. ''1970-01-01T00:00:00.000Z''),
       toLocaleDateString = (\<lambda>t. ''January 1, 1970''), getFullYear = (\<lambda>t. 1970), clock = 0 \<rparr>"

definition dated_item :: feed_item where
  "dated_item =
     \<lparr> item_title = None, item_speaker = None, item_content = None, item_description = None,
       item_pubDate = Some ''Thu, 01 Jan 1970 00:00:00 GMT'', item_isoDate = None, item_subtitle = None, item_duration = None,
       item_enclosure_url = None, item_link = None, item_guid = None \<rparr>"

text \<open>A feed of two sermons, on \<open>2 John 1\<close> and on \<open>Genesis 1\<close>.\<close>

definition books_feed :: feed where
  "books_feed =
     \<lparr> feed_items = [dated_item\<lparr>item_content := Some ''2 John 1''\<rparr>,
                     dated_item\<lparr>item_content := Some ''Genesis 1''\<rparr>],
       feed_title = None, feed_lastBuildDate = None \<rparr>"

text \<open>
  A component of a duration that is blank or a string of decimal digits, white space
  around it allowed; its value is the number the digits write, 0 when it is blank.
\<close>

definition decimal_field :: "string \<Rightarrow> bool" where
  "decimal_field p \<longleftrightarrow> CHR '':'' \<notin> set p \<and> list_all is_digit (trim p)"

definition field_value :: "string \<Rightarrow> int" where
  "field_value p = dec_value (trim p)"

section \<open>Calendar feed (the calendar data file)\<close>

text \<open>
  Times are milliseconds since the epoch, each a valid date. A recurrence rule is represented by the start
  times of its occurrences, and \<^verbatim>\<open>rrule.between(after, before, inc)\<close> is the window
  query the rrule library documents: the occurrences between the two bounds, the bounds
  themselves included when \<^verbatim>\<open>inc\<close> is true.
\<close>

type_synonym rrule = "int list"

definition between :: "rrule \<Rightarrow> int \<Rightarrow> int \<Rightarrow> bool \<Rightarrow> int list" where
  "between occurrences lower upper inc =
     filter (\<lambda>d. if inc then lower \<le> d \<and> d \<le> upper else lower < d \<and> d < upper) occurrences"

record vevent =
  ev_type :: string
  ev_rrule :: "rrule option"
  ev_start :: "int option"
  ev_end :: "int option"
  ev_summary :: "string option"
  ev_location :: "string option"
  ev_description :: "string option"
  ev_datetype :: "string option"

record cal_event =
  cal_title :: string
  cal_start :: int
  cal_end :: "int option"
  cal_location :: "string option"
  cal_description :: "string option"
  isAllDay :: bool
  formattedDateTime :: string

text \<open>\<^verbatim>\<open>v || null\<close> on an optional string.\<close>

definition or_null :: "string option \<Rightarrow> string option" where
  "or_null v = (case v of None \<Rightarrow> None | Some s \<Rightarrow> if s = [] then None else Some s)"

definition sevenDays :: int where
  "sevenDays = 7 * 24 * 60 * 60 * 1000"

text \<open>
  The body of the loop over the occurrences. The pre-formatted display string is the
  runtime's \<^verbatim>\<open>toLocaleDateString\<close>, a parameter taking the all-day flag and the time.
\<close>

definition occurrence :: "(bool \<Rightarrow> int \<Rightarrow> string) \<Rightarrow> vevent \<Rightarrow> int \<Rightarrow> int \<Rightarrow> cal_event" where
  "occurrence fmt event durationMs d =
     (let allDay = (ev_datetype event = Some ''date'')
      in \<lparr> cal_title = or_else (ev_summary event) ''Untitled Event'',
           cal_start = d,
           cal_end = Some (d + durationMs),
           cal_location = or_null (ev_location event),
           cal_description = or_null (ev_description event),
           isAllDay = allDay,
           formattedDateTime = fmt allDay d \<rparr>)"

text \<open>
  The branch for recurring events. The duration is computed inside the loop; with an end
  but no start, \<^verbatim>\<open>event.start.getTime()\<close> raises on the first occurrence, before anything
  is pushed, and the surrounding \<^verbatim>\<open>catch\<close> only logs a warning.
\<close>

definition expand_recurring ::
    "(bool \<Rightarrow> int \<Rightarrow> string) \<Rightarrow> int \<Rightarrow> vevent \<Rightarrow> rrule \<Rightarrow> cal_event list" where
  "expand_recurring fmt now event rule =
     (let dates = between rule now (now + sevenDays) True
      in case ev_end event of
           None \<Rightarrow> map (occurrence fmt event 0) dates
         | Some e \<Rightarrow>
             (case ev_start event of
                None \<Rightarrow> []
              | Some s \<Rightarrow> map (occurrence fmt event (e - s)) dates))"

definition single_event :: "(bool \<Rightarrow> int \<Rightarrow> string) \<Rightarrow> vevent \<Rightarrow> int \<Rightarrow> cal_event" where
  "single_event fmt event s =
     (let allDay = (ev_datetype event = Some ''date'')
      in \<lparr> cal_title = or_else (ev_summary event) ''Untitled Event'',
           cal_start = s,
           cal_end = ev_end event,
           cal_location = or_null (ev_location event),
           cal_description = or_null (ev_description event),
           isAllDay = allDay,
           formattedDateTime = fmt allDay s \<rparr>)"

definition event_entries :: "(bool \<Rightarrow> int \<Rightarrow> string) \<Rightarrow> int \<Rightarrow> vevent \<Rightarrow> cal_event list" where
  "event_entries fmt now event =
     (if ev_type event \<noteq> ''VEVENT'' then []
      else case ev_rrule event of
             Some rule \<Rightarrow> expand_recurring fmt now event rule
           | None \<Rightarrow>
               (case ev_start event of
                  None \<Rightarrow> []
                | Some s \<Rightarrow>
                    if s < now \<or> s > now + sevenDays then [] else [single_event fmt event s]))"

text \<open>The exported function: a failed fetch gives the empty list.\<close>

definition calendar_events ::
    "(bool \<Rightarrow> int \<Rightarrow> string) \<Rightarrow> int \<Rightarrow> js_error + vevent list \<Rightarrow> cal_event list" where
  "calendar_events fmt now fetched =
     (case fetched of
        Inl e \<Rightarrow> []
      | Inr events \<Rightarrow>
          take 7 (sort_by (\<lambda>a b. cal_start a - cal_start b)
                    (concat (map (event_entries fmt now) events))))"

text \<open>For the examples: a display string that is always empty.\<close>

definition no_format :: "bool \<Rightarrow> int \<Rightarrow> string" where
  "no_format allDay t = []"

definition weekly_event :: vevent where
  "weekly_event =
     \<lparr> ev_type = ''VEVENT'', ev_rrule = Some [0, 1000, 5000, 604801000, 604802000],
       ev_start = Some 0, ev_end = Some 3600000, ev_summary = None, ev_location = None,
       ev_description = None, ev_datetype = None \<rparr>"

section \<open>Image rewriter (optimize-images.js)\<close>

subsection \<open>Paths (the POSIX functions of Node's path module)\<close>

fun join_with :: "string \<Rightarrow> string list \<Rightarrow> string" where
  "join_with sep [] = []"
| "join_with sep [x] = x"
| "join_with sep (x # y # ys) = x @ sep @ join_with sep (y # ys)"

text \<open>
  \<^verbatim>\<open>normalizeString\<close>: empty segments and \<^verbatim>\<open>.\<close> are dropped; \<^verbatim>\<open>..\<close> removes the
  segment before it, or is kept when there is none to remove and the path is relative.
\<close>

fun normalize_parts :: "bool \<Rightarrow> string list \<Rightarrow> string list \<Rightarrow> string list" where
  "normalize_parts allowAboveRoot res [] = res"
| "normalize_parts allowAboveRoot res (seg # segs) =
     (if seg = [] \<or> seg = ''.'' then normalize_parts allowAboveRoot res segs
      else if seg = ''..'' then
        (if res \<noteq> [] \<and> last res \<noteq> ''..'' then normalize_parts allowAboveRoot (butlast res) segs
         else if allowAboveRoot then normalize_parts allowAboveRoot (res @ [''..'']) segs
         else normalize_parts allowAboveRoot res segs)
      else normalize_parts allowAboveRoot (res @ [seg]) segs)"

definition path_normalize :: "string \<Rightarrow> string" where
  "path_normalize p =
     (if p = [] then ''.''
      else
        (let isAbsolute = (hd p = CHR ''/'');
             trailing = (last p = CHR ''/'');
             body = join_with ''/'' (normalize_parts (\<not> isAbsolute) [] (split_on CHR ''/'' p))
         in if body = [] then (if isAbsolute then ''/'' else if trailing then ''./'' else ''.'')
            else (if isAbsolute then ''/'' else []) @ body @ (if trailing then ''/'' else [])))"

definition path_join :: "string list \<Rightarrow> string" where
  "path_join segs =
     (let joined = join_with ''/'' (filter (\<lambda>s. s \<noteq> []) segs)
      in if joined = [] then ''.'' else path_normalize joined)"

text \<open>
  \<^verbatim>\<open>path.dirname\<close>: trailing slashes are ignored, the result ends before the last
  remaining slash; the first character is never taken for that slash.
\<close>

definition path_dirname :: "string \<Rightarrow> string" where
  "path_dirname p =
     (if p = [] then ''.''
      else
        (let hasRoot = (hd p = CHR ''/'');
             q = rev (dropWhile (\<lambda>c. c = CHR ''/'') (rev (tl p)))
         in if CHR ''/'' \<notin> set q then (if hasRoot then ''/'' else ''.'')
            else
              (let e = length q - length (takeWhile (\<lambda>c. c \<noteq> CHR ''/'') (rev q))
               in if hasRoot \<and> e = 1 then ''//'' else take e p)))"

subsection \<open>The skip policy\<close>

definition SITE_DIR :: string where
  "SITE_DIR = ''_site''"

text \<open>
  The patterns \<^verbatim>\<open>/favicon/i\<close>, \<^verbatim>\<open>/logo/i\<close>, \<^verbatim>\<open>/icon/i\<close> by their lower-case text. Such
  a pattern matches when the text occurs somewhere in the string, letter case ignored.
\<close>

definition SKIP_PATTERNS :: "string list" where
  "SKIP_PATTERNS = [''favicon'', ''logo'', ''icon'']"

fun occurs_in :: "string \<Rightarrow> string \<Rightarrow> bool" where
  "occurs_in pat [] = (pat = [])"
| "occurs_in pat (x # xs) = (prefix pat (x # xs) \<or> occurs_in pat xs)"

definition pattern_test :: "string \<Rightarrow> string \<Rightarrow> bool" where
  "pattern_test pat s = occurs_in pat (toLowerCase s)"

text \<open>
  \<^verbatim>\<open>shouldSkipImage\<close>. The dimensions are numbers or \<^verbatim>\<open>null\<close>; 0 is falsy like
  \<^verbatim>\<open>null\<close>.
\<close>

definition shouldSkipImage :: "string \<Rightarrow> int option \<Rightarrow> int option \<Rightarrow> bool" where
  "shouldSkipImage src width height =
     (if list_ex (\<lambda>pat. pattern_test pat src) SKIP_PATTERNS then True
      else if (case (width, height) of
                 (Some w, Some h) \<Rightarrow> w \<noteq> 0 \<and> h \<noteq> 0 \<and> (w < 100 \<or> h < 100)
               | _ \<Rightarrow> False) then True
      else if suffix ''.svg'' src then True
      else if prefix ''http://'' src \<or> prefix ''https://'' src then True
      else False)"

text \<open>
  \<^verbatim>\<open>parseInt\<close> with no radix: leading white space, an optional sign, then hexadecimal
  digits after \<^verbatim>\<open>0x\<close> or decimal digits otherwise, up to the first character that is not
  a digit; \<open>None\<close> is \<open>NaN\<close>. The integer is the exact one; the double the runtime
  returns is the nearest to it, which is zero, or below 100, exactly when the integer is.
\<close>

definition parseInt :: "string \<Rightarrow> int option" where
  "parseInt s =
     (let t = dropWhile is_ws s;
          sign = (if prefix ''-'' t then - 1 else 1);
          u = (if prefix ''-'' t \<or> prefix ''+'' t then tl t else t)
      in if prefix ''0x'' u \<or> prefix ''0X'' u then
           (let ds = takeWhile (\<lambda>c. hex_val c \<noteq> None) (drop 2 u)
            in if ds = [] then None
               else Some (sign * radix_value 16 ds))
         else
           (let ds = takeWhile is_digit u
            in if ds = [] then None else Some (sign * dec_value ds)))"

text \<open>
  \<^verbatim>\<open>parseInt($img.attr(name)) || null\<close>: an absent attribute parses as \<open>NaN\<close>, and \<open>NaN\<close>
  and 0 both give \<^verbatim>\<open>null\<close>.
\<close>

definition attr_dim :: "string option \<Rightarrow> int option" where
  "attr_dim a =
     (case a of
        None \<Rightarrow> None
      | Some s \<Rightarrow> (case parseInt s of None \<Rightarrow> None | Some n \<Rightarrow> if n = 0 then None else Some n))"

subsection \<open>Resolving and encoding an image\<close>

text \<open>
  The disk maps a path to the bytes of the file there. \<^verbatim>\<open>fs\<close> is the promise API: a
  call returns a promise object, which holds the outcome the call settles with.
\<close>

type_synonym disk = "string \<rightharpoonup> string"

datatype 'a promise = Promise 'a

definition fs_access :: "disk \<Rightarrow> string \<Rightarrow> (js_error + unit) promise" where
  "fs_access d p = Promise (if d p = None then Inl (Rejected ''ENOENT'') else Inr ())"

text \<open>\<^verbatim>\<open>.then(() => true).catch(() => false)\<close>\<close>

definition then_true_catch_false :: "(js_error + unit) promise \<Rightarrow> bool promise" where
  "then_true_catch_false p = (case p of Promise (Inr _) \<Rightarrow> Promise True | Promise (Inl _) \<Rightarrow> Promise False)"

text \<open>A promise is an object, and every object is truthy, whatever it settles with.\<close>

definition truthy_promise :: "'a promise \<Rightarrow> bool" where
  "truthy_promise p = True"

definition await :: "'a promise \<Rightarrow> 'a" where
  "await p = (case p of Promise v \<Rightarrow> v)"

text \<open>
  \<^verbatim>\<open>getImagePath\<close>. The condition of the inner \<^verbatim>\<open>if\<close> is the promise itself: the
  source does not await it.
\<close>

definition getImagePath :: "disk \<Rightarrow> string \<Rightarrow> string \<Rightarrow> string" where
  "getImagePath d src htmlFilePath =
     (if prefix ''/'' src then
        (let siteImagePath = path_join [SITE_DIR, src]
         in if truthy_promise (then_true_catch_false (fs_access d siteImagePath)) then siteImagePath
            else path_join [''src'', src])
      else
        (let htmlDir = path_dirname htmlFilePath
         in path_join [htmlDir, src]))"

text \<open>
  The encoder (eleventy-img) is a parameter: it raises, or returns the metadata, an
  object from format names to the generated variants in ascending width. The files it
  writes are the variants in the output directory for optimized images; the disk of the
  model does not track them.
\<close>

record image_info =
  img_url :: string
  img_width :: nat
  img_height :: nat
  img_sourceType :: string

type_synonym metadata = "(string \<times> image_info list) list"

type_synonym encoder = "string \<Rightarrow> js_error + metadata"

text \<open>\<^verbatim>\<open>processImage\<close>: \<open>None\<close> is \<^verbatim>\<open>null\<close>. Here the access is awaited.\<close>

definition processImage :: "disk \<Rightarrow> encoder \<Rightarrow> string \<Rightarrow> string \<Rightarrow> metadata option" where
  "processImage d encode src htmlFilePath =
     (let imagePath = getImagePath d src htmlFilePath
      in case await (fs_access d imagePath) of
           Inl _ \<Rightarrow> None
         | Inr _ \<Rightarrow> (case encode imagePath of Inl _ \<Rightarrow> None | Inr md \<Rightarrow> Some md))"

subsection \<open>Markup\<close>

type_synonym attrs = "(string \<times> string) list"

definition srcset_of :: "image_info list \<Rightarrow> string" where
  "srcset_of images =
     join_with '', '' (map (\<lambda>img. img_url img @ '' '' @ show_nat (img_width img) @ ''w'') images)"

text \<open>An attribute value between double quotes.\<close>

definition quoted :: "string \<Rightarrow> string" where
  "quoted s = [CHR 0x22] @ s @ [CHR 0x22]"

text \<open>
  \<^verbatim>\<open>generatePictureHtml\<close>. Reading a property of \<^verbatim>\<open>undefined\<close> raises a TypeError: that
  happens when the metadata has no format, or when a format it reads has no variant.
\<close>

definition generatePictureHtml :: "metadata \<Rightarrow> attrs \<Rightarrow> js_error + string" where
  "generatePictureHtml md img =
     (let alt = or_else (map_of img ''alt'') [];
          classes = or_else (map_of img ''class'') [];
          loading = or_else (map_of img ''loading'') ''lazy'';
          sizes = or_else (map_of img ''sizes'') ''100vw''
      in case md of
           [] \<Rightarrow> Inl TypeError
         | (k0, largestFormat) # _ \<Rightarrow>
             (let formats = filter (\<lambda>fmt. fmt \<noteq> ''jpeg'' \<and> fmt \<noteq> ''png'' \<and> fmt \<noteq> ''jpg'') (map fst md);
                  variants = (\<lambda>fmt. case map_of md fmt of Some images \<Rightarrow> images | None \<Rightarrow> []);
                  fallbackFormat =
                    (case map_of md ''jpeg'' of Some f \<Rightarrow> f | None \<Rightarrow>
                       (case map_of md ''jpg'' of Some f \<Rightarrow> f | None \<Rightarrow>
                          (case map_of md ''png'' of Some f \<Rightarrow> f | None \<Rightarrow> largestFormat)))
              in if largestFormat = [] \<or> list_ex (\<lambda>fmt. variants fmt = []) formats \<or> fallbackFormat = []
                 then Inl TypeError
                 else
                   (let largestImage = last largestFormat
                    in Inr (''<picture>''
                         @ concat (map (\<lambda>fmt.
                               [CHR 0x0A] @ ''  <source type='' @ quoted (img_sourceType (hd (variants fmt)))
                               @ '' srcset='' @ quoted (srcset_of (variants fmt))
                               @ '' sizes='' @ quoted sizes @ ''>'') formats)
                         @ [CHR 0x0A] @ ''  <img src='' @ quoted (img_url (last fallbackFormat))
                         @ '' alt='' @ quoted alt @ '' class='' @ quoted classes
                         @ '' loading='' @ quoted loading
                         @ '' srcset='' @ quoted (srcset_of fallbackFormat)
                         @ '' sizes='' @ quoted sizes
                         @ '' width='' @ quoted (show_nat (img_width largestImage))
                         @ '' height='' @ quoted (show_nat (img_height largestImage)) @ ''>''
                         @ [CHR 0x0A] @ ''</picture>''))))"

subsection \<open>Processing a file\<close>

text \<open>
  The parsed document is the sequence of its image elements, each with its attributes,
  and the markup around them. Parsing and printing are cheerio's and are parameters.
\<close>

datatype node = Img attrs | Markup string

text \<open>
  One turn of the loop over the images: the node that stands in place of the image
  afterwards, and what the turn adds to \<^verbatim>\<open>processedCount\<close> and \<^verbatim>\<open>skippedCount\<close>.
\<close>

definition img_step :: "disk \<Rightarrow> encoder \<Rightarrow> string \<Rightarrow> attrs \<Rightarrow> js_error + (node \<times> nat \<times> nat)" where
  "img_step d encode filePath img =
     (case map_of img ''src'' of
        None \<Rightarrow> Inr (Img img, 0, 0)
      | Some src \<Rightarrow>
          if src = [] then Inr (Img img, 0, 0)
          else
            (let width = attr_dim (map_of img ''width'');
                 height = attr_dim (map_of img ''height'')
             in if shouldSkipImage src width height then Inr (Img img, 0, 1)
                else
                  (case processImage d encode src filePath of
                     None \<Rightarrow> Inr (Img img, 0, 1)
                   | Some md \<Rightarrow>
                       (case generatePictureHtml md img of
                          Inl e \<Rightarrow> Inl e
                        | Inr pictureHtml \<Rightarrow> Inr (Markup pictureHtml, 1, 0)))))"

fun process_nodes ::
    "disk \<Rightarrow> encoder \<Rightarrow> string \<Rightarrow> node list \<Rightarrow> js_error + (node list \<times> nat \<times> nat)" where
  "process_nodes d encode filePath [] = Inr ([], 0, 0)"
| "process_nodes d encode filePath (Markup m # ns) =
     (case process_nodes d encode filePath ns of
        Inl e \<Rightarrow> Inl e
      | Inr (ns', processedCount, skippedCount) \<Rightarrow> Inr (Markup m # ns', processedCount, skippedCount))"
| "process_nodes d encode filePath (Img img # ns) =
     (case img_step d encode filePath img of
        Inl e \<Rightarrow> Inl e
      | Inr (n, p, s) \<Rightarrow>
          (case process_nodes d encode filePath ns of
             Inl e \<Rightarrow> Inl e
           | Inr (ns', processedCount, skippedCount) \<Rightarrow>
               Inr (n # ns', p + processedCount, s + skippedCount)))"

fun is_img :: "node \<Rightarrow> bool" where
  "is_img (Img _) = True"
| "is_img (Markup _) = False"

text \<open>
  The state of the file system: the disk, and the log of the calls of
  \<^verbatim>\<open>fs.writeFile\<close>, which tells a file that was written with the bytes it already had
  from a file that was not written.
\<close>

record fs_state =
  files :: disk
  write_log :: "string list"

text \<open>\<^verbatim>\<open>processHtmlFile\<close>. Reading a missing file raises.\<close>

definition processHtmlFile ::
    "(string \<Rightarrow> node list) \<Rightarrow> (node list \<Rightarrow> string) \<Rightarrow> encoder \<Rightarrow> fs_state \<Rightarrow> string
       \<Rightarrow> js_error + fs_state" where
  "processHtmlFile load render encode st filePath =
     (case files st filePath of
        None \<Rightarrow> Inl (Rejected ''ENOENT'')
      | Some html \<Rightarrow>
          (let doc = load html
           in if \<not> list_ex is_img doc then Inr st
              else
                (case process_nodes (files st) encode filePath doc of
                   Inl e \<Rightarrow> Inl e
                 | Inr (doc', processedCount, skippedCount) \<Rightarrow>
                     if processedCount > 0
                     then Inr (st\<lparr> files := (files st)(filePath \<mapsto> render doc'),
                                   write_log := write_log st @ [filePath] \<rparr>)
                     else Inr st)))"

text \<open>\<^verbatim>\<open>main\<close>: the files in turn; a file that raises ends the run.\<close>

fun process_files ::
    "(string \<Rightarrow> node list) \<Rightarrow> (node list \<Rightarrow> string) \<Rightarrow> encoder \<Rightarrow> fs_state \<Rightarrow> string list
       \<Rightarrow> js_error + fs_state" where
  "process_files load render encode st [] = Inr st"
| "process_files load render encode st (f # fs) =
     (case processHtmlFile load render encode st f of
        Inl e \<Rightarrow> Inl e
      | Inr st' \<Rightarrow> process_files load render encode st' fs)"

text \<open>
  An image of a document is transformed when it has a source, the policy does not skip
  it, and \<^verbatim>\<open>processImage\<close> returns metadata for it.
\<close>

definition qualifies :: "disk \<Rightarrow> encoder \<Rightarrow> string \<Rightarrow> node \<Rightarrow> bool" where
  "qualifies d encode filePath n =
     (case n of
        Markup _ \<Rightarrow> False
      | Img img \<Rightarrow>
          (case map_of img ''src'' of
             None \<Rightarrow> False
           | Some src \<Rightarrow>
               src \<noteq> []
               \<and> \<not> shouldSkipImage src (attr_dim (map_of img ''width'')) (attr_dim (map_of img ''height''))
               \<and> processImage d encode src filePath \<noteq> None))"

text \<open>
  For the examples: a disk where the photo exists in the source tree and not in the
  generation output.
\<close>

definition source_only_disk :: disk where
  "source_only_disk = [''src/assets/images/photo.jpg'' \<mapsto> ''JFIF'']"

text \<open>
  For the examples: a disk with a page and its photo in the generation output, an
  encoder that returns two formats of one width, and a reader and a printer of documents
  that take the bytes of a file for the source of its only image.
\<close>

definition site_disk :: disk where
  "site_disk = [''_site/index.html'' \<mapsto> ''photo.jpg'', ''_site/photo.jpg'' \<mapsto> ''JFIF'']"

definition two_formats :: encoder where
  "two_formats imagePath =
     Inr [(''webp'', [\<lparr> img_url = ''/assets/images/optimized/photo-400w.webp'', img_width = 400,
                        img_height = 300, img_sourceType = ''image/webp'' \<rparr>]),
          (''jpeg'', [\<lparr> img_url = ''/assets/images/optimized/photo-400w.jpeg'', img_width = 400,
                        img_height = 300, img_sourceType = ''image/jpeg'' \<rparr>])]"

definition single_image :: "string \<Rightarrow> node list" where
  "single_image html = [Img [(''src'', html)]]"

definition print_nodes :: "node list \<Rightarrow> string" where
  "print_nodes doc =
     concat (map (\<lambda>n. case n of Img a \<Rightarrow> or_else (map_of a ''src'') [] | Markup m \<Rightarrow> m) doc)"

definition logo_disk :: disk where
  "logo_disk = [''_site/index.html'' \<mapsto> ''logo.png'']"

section \<open>The scripture normalizer: unmatched input, aliases, idempotence\<close>

subsection \<open>Facts about the alias table\<close>

lemma heads_from_prefix:
  "prefix (v @ '' '') u \<Longrightarrow> rev acc @ v \<in> set (heads_from acc u)"
proof (induction u arbitrary: acc v)
  case Nil
  then show ?case by simp
next
  case (Cons x xs)
  show ?case
  proof (cases v)
    case Nil
    with Cons.prems show ?thesis by simp
  next
    case (Cons y v')
    with Cons.prems have xy: "x = y" and p: "prefix (v' @ '' '') xs" by simp_all
    from Cons.IH [OF p, of "x # acc"] have "rev acc @ v \<in> set (heads_from (x # acc) xs)"
      using Cons xy by simp
    then show ?thesis by (cases "x = CHR '' ''") simp_all
  qed
qed

lemma heads_prefix: "prefix (v @ '' '') u \<Longrightarrow> v \<in> set (heads_from [] u)"
  using heads_from_prefix [of v u "[]"] by simp

lemma grouped_head:
  "grouped cur tbl \<Longrightarrow> e \<in> set tbl \<Longrightarrow> (toLowerCase (snd e), snd e) \<in> set tbl \<or> cur = Some (snd e)"
proof (induction tbl arbitrary: cur)
  case Nil
  then show ?case by simp
next
  case (Cons x r)
  show ?case
  proof (cases "fst x = toLowerCase (snd x)")
    case True
    with Cons.prems have g: "grouped (Some (snd x)) r" by simp
    show ?thesis
    proof (cases "e = x")
      case True
      with \<open>fst x = toLowerCase (snd x)\<close> have "(toLowerCase (snd e), snd e) = x"
        by (metis prod.collapse)
      then show ?thesis by simp
    next
      case False
      with Cons.prems have "e \<in> set r" by simp
      from Cons.IH [OF g this] show ?thesis
      proof
        assume "(toLowerCase (snd e), snd e) \<in> set r"
        then show ?thesis by simp
      next
        assume "Some (snd x) = Some (snd e)"
        with True have "(toLowerCase (snd e), snd e) = x" by (metis option.inject prod.collapse)
        then show ?thesis by simp
      qed
    qed
  next
    case False
    with Cons.prems have c: "cur = Some (snd x)" and g: "grouped cur r" by auto
    show ?thesis
    proof (cases "e = x")
      case True
      with c show ?thesis by simp
    next
      case False
      with Cons.prems have "e \<in> set r" by simp
      from Cons.IH [OF g this] show ?thesis by auto
    qed
  qed
qed

lemma char_eq_char_of: "c = char_of n \<longleftrightarrow> take_bit 8 n = of_char c"
  using char_of_eq_iff [of n c] by auto

lemmas lower_eval = toLowerCase_def lower_char_def char_of_eq_iff char_eq_char_of

lemma tf_keys:
  "list_all (\<lambda>e. fst e \<noteq> [] \<and> \<not> is_ws (hd (fst e)) \<and> toLowerCase (fst e) = fst e) bookNormalization"
  by (simp add: bookNormalization_def is_ws_def lower_eval)

lemma tf_canon:
  "list_all (\<lambda>e. snd e \<noteq> [] \<and> \<not> is_ws (hd (snd e)) \<and> \<not> is_ws (last (snd e))) bookNormalization"
  by (simp add: bookNormalization_def is_ws_def)

lemma tf_heads:
  "list_all (\<lambda>e. fst e \<in> set [''song of solomon'', ''song of songs'']
       \<or> list_all (\<lambda>h. h \<in> set [''1'', ''2'', ''3'']) (heads_from [] (fst e))) bookNormalization"
  by (simp add: bookNormalization_def)

lemma tf_nohead:
  "list_all (\<lambda>e. fst e \<notin> set [''1'', ''2'', ''3'', ''song of'']) bookNormalization"
  by (simp add: bookNormalization_def)

lemma tf_distinct: "distinct (map fst bookNormalization)"
  by (simp add: bookNormalization_def)

lemma tf_grouped: "grouped None bookNormalization"
  by (simp add: bookNormalization_def lower_eval)




lemma tf_special:
  "list_all (\<lambda>e. fst e \<in> set [''song of solomon'', ''song of songs'', ''song'']
       \<longrightarrow> snd e = ''Song of Solomon'') bookNormalization"
  by (simp add: bookNormalization_def)

lemma tf_canon_lower:
  "list_all (\<lambda>e. toLowerCase (snd e) \<noteq> ''song'') bookNormalization"
  by (simp add: bookNormalization_def lower_eval)

lemma dropWhile_self: "xs \<noteq> [] \<Longrightarrow> \<not> P (hd xs) \<Longrightarrow> dropWhile P xs = xs"
  by (cases xs) simp_all

lemma last_dropWhile_keep: "dropWhile P xs \<noteq> [] \<Longrightarrow> last (dropWhile P xs) = last xs"
  by (induction xs) (auto split: if_splits)

lemma trim_id: "s \<noteq> [] \<Longrightarrow> \<not> is_ws (hd s) \<Longrightarrow> \<not> is_ws (last s) \<Longrightarrow> trim s = s"
  by (simp add: trim_def dropWhile_self hd_rev)

lemma trim_hd_last:
  assumes "trim s \<noteq> []"
  shows "\<not> is_ws (hd (trim s))" and "\<not> is_ws (last (trim s))"
proof -
  let ?d = "dropWhile is_ws s"
  let ?e = "dropWhile is_ws (rev ?d)"
  from assms have e: "?e \<noteq> []" by (simp add: trim_def)
  have d: "?d \<noteq> []"
  proof
    assume a: "?d = []"
    have "?e = []" by (simp only: a rev.simps dropWhile.simps)
    with e show False ..
  qed
  have "last ?e = last (rev ?d)" using e by (rule last_dropWhile_keep)
  also have "\<dots> = hd ?d" using d by (simp add: last_rev)
  finally have "hd (trim s) = hd ?d" using e by (simp add: trim_def hd_rev)
  with d show "\<not> is_ws (hd (trim s))" by (simp add: hd_dropWhile)
  have "last (trim s) = hd ?e" using e by (simp add: trim_def last_rev)
  with e show "\<not> is_ws (last (trim s))" by (simp add: hd_dropWhile)
qed

lemma trim_trim: "trim (trim s) = trim s"
proof (cases "trim s = []")
  case True
  then have "trim (trim s) = trim []" by simp
  also have "\<dots> = []" by (simp add: trim_def)
  finally show ?thesis using True by simp
next
  case False
  then show ?thesis by (simp add: trim_id trim_hd_last)
qed

lemma trim_space_cons:
  "r \<noteq> [] \<Longrightarrow> \<not> is_ws (hd r) \<Longrightarrow> \<not> is_ws (last r) \<Longrightarrow> trim (CHR '' '' # r) = r"
  using trim_id [of r] by (simp add: trim_def is_ws_def)

lemma find_first:
  "map_of tbl u = Some c \<Longrightarrow> P (u, c) \<Longrightarrow> (\<forall>e\<in>set tbl. P e \<longrightarrow> fst e = u)
     \<Longrightarrow> find P tbl = Some (u, c)"
  by (induction tbl) (auto split: if_splits)

lemma find_weaken:
  "(\<forall>x. P x \<longrightarrow> Q x) \<Longrightarrow> find Q xs = Some y \<Longrightarrow> P y \<Longrightarrow> find P xs = Some y"
  by (induction xs) (auto split: if_splits)

lemma alias_matches_cases:
  assumes m: "alias_matches (u @ t) e" and t: "tail_ok t"
  shows "fst e = u \<or> prefix (fst e @ '' '') u \<or> prefix (u @ '' '') (fst e)"
proof -
  let ?v = "fst e"
  from m have "prefix (?v @ '' '') (u @ t) \<or> u @ t = ?v" by (simp add: alias_matches_def)
  then show ?thesis
  proof
    assume "u @ t = ?v"
    show ?thesis
    proof (cases t)
      case Nil
      with \<open>u @ t = ?v\<close> show ?thesis by simp
    next
      case (Cons x w)
      with t have "x = CHR '' ''" by (simp add: tail_ok_def)
      with Cons \<open>u @ t = ?v\<close> have "?v = (u @ '' '') @ w" by simp
      then have "prefix (u @ '' '') ?v" by (metis prefixI)
      then show ?thesis by simp
    qed
  next
    assume "prefix (?v @ '' '') (u @ t)"
    then consider "prefix (?v @ '' '') u" | us where "?v @ '' '' = u @ us" "prefix us t"
      by (auto simp: prefix_append)
    then show ?thesis
    proof cases
      case 1
      then show ?thesis by simp
    next
      case 2
      show ?thesis
      proof (cases us)
        case Nil
        with 2 have "prefix (?v @ '' '') u" by simp
        then show ?thesis by simp
      next
        case (Cons x us')
        with 2 t have x: "x = CHR '' ''" by (cases t) (auto simp: tail_ok_def)
        show ?thesis
        proof (cases "us' = []")
          case True
          with 2 Cons x show ?thesis by simp
        next
          case False
          then have "us' = butlast us' @ [last us']" by simp
          with 2 Cons x have "?v @ '' '' = ((u @ '' '') @ butlast us') @ [last us']" by simp
          then have "?v = (u @ '' '') @ butlast us'" by (metis append1_eq_conv)
          then have "prefix (u @ '' '') ?v" by (metis prefixI)
          then show ?thesis by simp
        qed
      qed
    qed
  qed
qed

lemma alias_matches_self: "tail_ok t \<Longrightarrow> alias_matches (u @ t) (u, c)"
  by (cases t) (auto simp: alias_matches_def tail_ok_def)

lemma no_rival:
  assumes e: "e \<in> set bookNormalization" and e': "e' \<in> set bookNormalization"
    and ns: "fst e \<notin> set [''song of solomon'', ''song of songs'', ''song'']"
  shows "\<not> prefix (fst e' @ '' '') (fst e)" and "\<not> prefix (fst e @ '' '') (fst e')"
proof -
  from tf_nohead e have ne: "fst e \<notin> set [''1'', ''2'', ''3'', ''song of'']"
    by (simp add: list_all_iff)
  from tf_nohead e' have ne': "fst e' \<notin> set [''1'', ''2'', ''3'', ''song of'']"
    by (simp add: list_all_iff)
  show "\<not> prefix (fst e' @ '' '') (fst e)"
  proof
    assume "prefix (fst e' @ '' '') (fst e)"
    then have h: "fst e' \<in> set (heads_from [] (fst e))" by (rule heads_prefix)
    from tf_heads e ns have "list_all (\<lambda>h. h \<in> set [''1'', ''2'', ''3'']) (heads_from [] (fst e))"
      by (auto simp: list_all_iff)
    with h have "fst e' \<in> set [''1'', ''2'', ''3'']" by (auto simp: list_all_iff)
    with ne' show False by simp
  qed
  show "\<not> prefix (fst e @ '' '') (fst e')"
  proof
    assume "prefix (fst e @ '' '') (fst e')"
    then have h: "fst e \<in> set (heads_from [] (fst e'))" by (rule heads_prefix)
    from tf_heads e' consider "fst e' = ''song of solomon''" | "fst e' = ''song of songs''"
      | "list_all (\<lambda>h. h \<in> set [''1'', ''2'', ''3'']) (heads_from [] (fst e'))"
      by (auto simp: list_all_iff)
    then show False
    proof cases
      case 1
      with h have "fst e = ''song'' \<or> fst e = ''song of''" by simp
      with ns ne show False by simp
    next
      case 2
      with h have "fst e = ''song'' \<or> fst e = ''song of''" by simp
      with ns ne show False by simp
    next
      case 3
      with h have "fst e \<in> set [''1'', ''2'', ''3'']" by (auto simp: list_all_iff)
      with ne show False by simp
    qed
  qed
qed

lemma first_match_generic:
  assumes e: "e \<in> set bookNormalization"
    and ns: "fst e \<notin> set [''song of solomon'', ''song of songs'', ''song'']"
    and t: "tail_ok t"
  shows "find (alias_matches (fst e @ t)) bookNormalization = Some e"
proof -
  from tf_distinct e have "map_of bookNormalization (fst e) = Some (snd e)"
    by (metis map_of_is_SomeI prod.collapse)
  moreover have "alias_matches (fst e @ t) (fst e, snd e)" using t by (rule alias_matches_self)
  moreover have "\<forall>e'\<in>set bookNormalization. alias_matches (fst e @ t) e' \<longrightarrow> fst e' = fst e"
    using alias_matches_cases [OF _ t] no_rival [OF e _ ns] by blast
  ultimately have "find (alias_matches (fst e @ t)) bookNormalization = Some (fst e, snd e)"
    by (rule find_first)
  then show ?thesis by simp
qed

lemma near_sos:
  "find (near ''song of solomon'') bookNormalization = Some (''song of solomon'', ''Song of Solomon'')"
  by (simp add: bookNormalization_def near_def)

lemma near_sosongs:
  "find (near ''song of songs'') bookNormalization = Some (''song of songs'', ''Song of Solomon'')"
  by (simp add: bookNormalization_def near_def)

lemma first_match:
  assumes e: "e \<in> set bookNormalization" and ns: "fst e \<noteq> ''song''" and t: "tail_ok t"
  shows "find (alias_matches (fst e @ t)) bookNormalization = Some e"
proof -
  have w: "\<forall>x. alias_matches (u @ t) x \<longrightarrow> near u x" for u
    using alias_matches_cases [OF _ t] by (auto simp: near_def)
  from tf_special e have sp: "fst e \<in> set [''song of solomon'', ''song of songs''] \<Longrightarrow> snd e = ''Song of Solomon''"
    by (auto simp: list_all_iff)
  consider "fst e = ''song of solomon''" | "fst e = ''song of songs''"
    | "fst e \<notin> set [''song of solomon'', ''song of songs'', ''song'']"
    using ns by auto
  then show ?thesis
  proof cases
    case 1
    with sp have "e = (''song of solomon'', ''Song of Solomon'')" by (metis list.set_intros(1) prod.collapse)
    with find_weaken [OF w near_sos alias_matches_self [OF t]] show ?thesis by simp
  next
    case 2
    with sp have "e = (''song of songs'', ''Song of Solomon'')"
      by (metis list.set_intros(1) list.set_intros(2) prod.collapse)
    with find_weaken [OF w near_sosongs alias_matches_self [OF t]] show ?thesis by simp
  next
    case 3
    show ?thesis by (rule first_match_generic [OF e 3 t])
  qed
qed


lemma toLowerCase_append: "toLowerCase (a @ b) = toLowerCase a @ toLowerCase b"
  by (simp add: toLowerCase_def)

lemma ev_song: "normalizeScripture (Str ''song 3:16'') = ''Song of Solomon 3:16''"
  by (simp add: normalizeScripture_def bookNormalization_def alias_matches_def trim_def
      is_ws_def lower_eval)

lemma normalize_step:
  assumes "s \<noteq> []" and "trim s = cl" and "toLowerCase cl = lo"
    and "find (alias_matches lo) bookNormalization = Some (v, c)"
    and "trim (drop (length v) cl) = r"
  shows "normalizeScripture (Str s) = c @ (if r \<noteq> [] then '' '' @ r else [])"
  using assms by (simp add: normalizeScripture_def Let_def)

lemma normalize_alias:
  assumes m: "map_of bookNormalization a = Some c"
  shows "normalizeScripture (Str (a @ '' 3:16'')) = c @ '' 3:16''"
proof (cases "a = ''song''")
  case True
  from m have "(a, c) \<in> set bookNormalization" by (rule map_of_SomeD)
  with tf_special True have "c = ''Song of Solomon''" by (auto simp: list_all_iff)
  with True ev_song show ?thesis by simp
next
  case False
  define s where "s = a @ '' 3:16''"
  from m have e: "(a, c) \<in> set bookNormalization" by (rule map_of_SomeD)
  with tf_keys have a: "a \<noteq> []" "\<not> is_ws (hd a)" "toLowerCase a = a"
    by (auto simp: list_all_iff)
  have ne: "s \<noteq> []" by (simp add: s_def)
  have "\<not> is_ws (last s)" by (simp add: s_def is_ws_def)
  with a have tr: "trim s = s" by (simp add: trim_id s_def)
  have "toLowerCase '' 3:16'' = '' 3:16''" by (simp add: lower_eval)
  with a have lo: "toLowerCase s = s" by (simp add: toLowerCase_append s_def)
  have "tail_ok '' 3:16''" by (simp add: tail_ok_def)
  with first_match [OF e] False
  have f: "find (alias_matches s) bookNormalization = Some (a, c)" by (simp add: s_def)
  have "trim '' 3:16'' = ''3:16''" by (simp add: trim_def is_ws_def)
  then have r: "trim (drop (length a) s) = ''3:16''" by (simp add: s_def)
  from normalize_step [OF ne tr lo f r] show ?thesis by (simp add: s_def)
qed

lemma normalize_idem: "normalizeScripture (Str (normalizeScripture x)) = normalizeScripture x"
proof -
  have empty: "normalizeScripture (Str []) = []" by (simp add: normalizeScripture_def)
  show ?thesis
  proof (cases x)
    case (Str s)
    show ?thesis
    proof (cases "s = []")
      case True
      with Str empty show ?thesis by simp
    next
      case False
      let ?cl = "trim s"
      let ?lo = "toLowerCase ?cl"
      show ?thesis
      proof (cases "find (alias_matches ?lo) bookNormalization")
        case None
        with Str False have out: "normalizeScripture x = ?cl"
          by (simp add: normalizeScripture_def)
        show ?thesis
        proof (cases "?cl = []")
          case True
          with out empty show ?thesis by simp
        next
          case nonempty: False
          with None show ?thesis unfolding out
            by (simp add: normalizeScripture_def trim_trim)
        qed
      next
        case (Some e)
        obtain v c where e: "e = (v, c)" by (cases e)
        from Some have mem: "e \<in> set bookNormalization" by (auto simp: find_Some_iff)
        define r where "r = trim (drop (length v) ?cl)"
        define out where "out = c @ (if r \<noteq> [] then '' '' @ r else [])"
        from Some e have "find (alias_matches ?lo) bookNormalization = Some (v, c)" by simp
        from normalize_step [OF False refl refl this refl]
        have res: "normalizeScripture x = out" by (simp add: Str out_def r_def)
        from tf_canon mem e have c: "c \<noteq> []" "\<not> is_ws (hd c)" "\<not> is_ws (last c)"
          by (auto simp: list_all_iff)
        have rr: "r \<noteq> [] \<Longrightarrow> \<not> is_ws (hd r) \<and> \<not> is_ws (last r)"
          using trim_hd_last [of "drop (length v) ?cl"] by (simp add: r_def)
        have ne: "out \<noteq> []" using c by (simp add: out_def)
        have tr: "trim out = out"
        proof (rule trim_id)
          show "out \<noteq> []" by (rule ne)
          show "\<not> is_ws (hd out)" using c by (simp add: out_def)
          show "\<not> is_ws (last out)" using c rr by (simp add: out_def)
        qed
        define t where "t = (if r \<noteq> [] then '' '' @ toLowerCase r else [])"
        have "lower_char CHR '' '' = CHR '' ''" by (simp add: lower_eval)
        then have lo: "toLowerCase out = toLowerCase c @ t"
          by (simp add: toLowerCase_def out_def t_def)
        have t: "tail_ok t" by (simp add: tail_ok_def t_def)
        from grouped_head [OF tf_grouped mem] e
        have mem': "(toLowerCase c, c) \<in> set bookNormalization" by simp
        from tf_canon_lower mem e have "toLowerCase c \<noteq> ''song''" by (auto simp: list_all_iff)
        with first_match [OF mem' _ t]
        have f: "find (alias_matches (toLowerCase c @ t)) bookNormalization = Some (toLowerCase c, c)"
          by simp
        have len: "length (toLowerCase c) = length c" by (simp add: toLowerCase_def)
        have "trim [] = []" by (simp add: trim_def)
        with rr have r': "trim (drop (length (toLowerCase c)) out) = r"
          by (simp add: len out_def trim_space_cons)
        from normalize_step [OF ne tr lo f r']
        have "normalizeScripture (Str out) = out" by (simp add: out_def)
        with res show ?thesis by simp
      qed
    qed
  qed (simp_all add: normalizeScripture_def)
qed

subsection \<open>The claims on the normalizer\<close>

text \<open>
  Claim C5, as the code has it. When the loop finds no alias that matches the trimmed,
  lower-cased input, the normalizer returns the input with the white space at both ends removed: the input
  itself only when it has none there. For the empty string and for every value that is
  not a string it returns the empty string.
\<close>

theorem normalize_unmatched:
  "(find (alias_matches (toLowerCase (trim s))) bookNormalization = None
      \<longrightarrow> normalizeScripture (Str s) = trim s
          \<and> (s \<noteq> [] \<and> \<not> is_ws (hd s) \<and> \<not> is_ws (last s) \<longrightarrow> normalizeScripture (Str s) = s))
   \<and> normalizeScripture (Str []) = []
   \<and> normalizeScripture Undefined = [] \<and> normalizeScripture Null = []
   \<and> normalizeScripture NonString = []"
proof -
  have "normalizeScripture (Str s) = trim s
        \<and> (s \<noteq> [] \<and> \<not> is_ws (hd s) \<and> \<not> is_ws (last s) \<longrightarrow> normalizeScripture (Str s) = s)"
    if n: "find (alias_matches (toLowerCase (trim s))) bookNormalization = None"
  proof -
    have "trim [] = []" by (simp add: trim_def)
    with n have "normalizeScripture (Str s) = trim s"
      by (simp add: normalizeScripture_def)
    then show ?thesis by (simp add: trim_id)
  qed
  moreover have "normalizeScripture (Str []) = []" "normalizeScripture Undefined = []"
    "normalizeScripture Null = []" "normalizeScripture NonString = []"
    by (simp_all add: normalizeScripture_def)
  ultimately show ?thesis by blast
qed

theorem normalize_unmatched_witness:
  "find (alias_matches (toLowerCase (trim '' hello ''))) bookNormalization = None
     \<and> normalizeScripture (Str '' hello '') = ''hello''"
proof -
  have t: "trim '' hello '' = ''hello''" by (simp add: trim_def is_ws_def)
  have l: "toLowerCase ''hello'' = ''hello''" by (simp add: lower_eval)
  have h: "find (alias_matches ''hello'') bookNormalization = None"
    by (simp add: bookNormalization_def alias_matches_def)
  with normalize_unmatched [of "'' hello ''"] show ?thesis by (simp add: t l)
qed

text \<open>
  The claim as written fails on an input with white space around it that matches no
  alias, before or after trimming: the result is not the input.
\<close>

theorem normalize_unmatched_counterexample:
  "find (alias_matches (toLowerCase (trim '' hello ''))) bookNormalization = None
     \<and> find (alias_matches (toLowerCase '' hello '')) bookNormalization = None
     \<and> normalizeScripture (Str '' hello '') \<noteq> '' hello ''"
  by (simp add: normalizeScripture_def bookNormalization_def alias_matches_def trim_def
      is_ws_def lower_eval)

text \<open>
  Claim C6. For every alias \<open>a\<close> that the table maps to the canonical name \<open>c\<close>,
  normalizing \<open>a\<close> followed by \<open>'' 3:16''\<close> gives \<open>c\<close> followed by \<open>'' 3:16''\<close>; and
  normalizing the result of the normalizer again changes nothing, for every input.
\<close>

theorem normalize_alias_idempotent:
  "(map_of bookNormalization a = Some c
      \<longrightarrow> normalizeScripture (Str (a @ '' 3:16'')) = c @ '' 3:16'')
   \<and> normalizeScripture (Str (normalizeScripture x)) = normalizeScripture x"
  using normalize_alias normalize_idem by simp

theorem normalize_alias_idempotent_witness:
  "map_of bookNormalization ''gen'' = Some ''Genesis''
   \<and> normalizeScripture (Str (''gen'' @ '' 3:16'')) = ''Genesis'' @ '' 3:16''
   \<and> normalizeScripture (Str (normalizeScripture (Str ''gen 3:16'')))
       = normalizeScripture (Str ''gen 3:16'')"
proof -
  have m: "map_of bookNormalization ''gen'' = Some ''Genesis''"
    by (simp add: bookNormalization_def)
  with normalize_alias_idempotent [of "''gen''" "''Genesis''" "Str ''gen 3:16''"]
  show ?thesis by blast
qed

section \<open>The sermon collection: scripture source, defaults, facets\<close>

lemma set_insert_by: "set (insert_by cmp x ys) = insert x (set ys)"
  by (induction ys) auto

lemma set_sort_by: "set (sort_by cmp xs) = set xs"
  by (induction xs) (simp_all add: sort_by_def set_insert_by)

lemma distinct_insert_by: "distinct (insert_by cmp x ys) \<longleftrightarrow> x \<notin> set ys \<and> distinct ys"
  by (induction ys) (auto simp: set_insert_by)

lemma distinct_sort_by: "distinct (sort_by cmp xs) \<longleftrightarrow> distinct xs"
proof (induction xs)
  case Nil
  show ?case by (simp add: sort_by_def)
next
  case (Cons x xs)
  have "sort_by cmp (x # xs) = insert_by cmp x (sort_by cmp xs)" by (simp add: sort_by_def)
  with Cons show ?case by (simp add: distinct_insert_by set_sort_by)
qed

lemma set_dedupe: "set (dedupe xs) = set xs"
  by (simp add: dedupe_def)

lemma distinct_dedupe: "distinct (dedupe xs)"
  by (simp add: dedupe_def)

lemma make_sermon_fields:
  assumes "make_sermon rt index item = Inr e"
  shows "scripture e = scripture_of item"
    and "title e = or_else (item_title item) ''Untitled Sermon''"
    and "speaker e = or_else (item_speaker item) ''Unknown Speaker''"
    and "book e = extractBook (normalizeScripture (Str (scripture_of item)))"
  using assms
  by (cases "iso_of rt item (new_Date rt (item_pubDate item))";
      cases "parseDuration (to_jsval (item_duration item))";
      auto simp: make_sermon_def Let_def)+

lemma map_items_members:
  "map_items rt index its = Inr ss \<Longrightarrow> e \<in> set ss
     \<Longrightarrow> \<exists>j item. item \<in> set its \<and> make_sermon rt j item = Inr e"
proof (induction its arbitrary: index ss)
  case Nil
  then show ?case by simp
next
  case (Cons it its)
  from Cons.prems(1) obtain s ss' where s: "make_sermon rt index it = Inr s"
    and r: "map_items rt (Suc index) its = Inr ss'" and ss: "ss = s # ss'"
    by (auto split: sum.splits)
  show ?case
  proof (cases "e = s")
    case True
    with s show ?thesis by auto
  next
    case False
    with Cons.prems(2) ss have "e \<in> set ss'" by simp
    from Cons.IH [OF r this] show ?thesis by auto
  qed
qed

lemma or_else_nonempty: "dflt \<noteq> [] \<Longrightarrow> or_else v dflt \<noteq> []"
  by (simp add: or_else_def split: option.splits)

lemma items_members:
  assumes "e \<in> set (items (sermons_data rt fetched))"
  shows "\<exists>j item. make_sermon rt j item = Inr e"
proof (cases fetched)
  case (Inl err)
  with assms show ?thesis by (simp add: sermons_data_def)
next
  case (Inr f)
  show ?thesis
  proof (cases "map_items rt 0 (feed_items f)")
    case (Inl err)
    with Inr assms show ?thesis by (simp add: sermons_data_def)
  next
    case ok: (Inr ss)
    with Inr assms have "e \<in> set ss" by (simp add: sermons_data_def Let_def set_sort_by)
    from map_items_members [OF ok this] show ?thesis by blast
  qed
qed

lemma speakers_eq:
  "speakers (meta (sermons_data rt fetched)) = speakers_facet (items (sermons_data rt fetched))"
  by (auto simp: sermons_data_def Let_def speakers_facet_def sort_by_def dedupe_def
      split: sum.splits)

lemma books_eq:
  "books (meta (sermons_data rt fetched)) = books_of (map book (items (sermons_data rt fetched)))"
  by (auto simp: sermons_data_def Let_def books_facet_def books_of_def sort_by_def dedupe_def
      split: sum.splits)

lemma dated_item_ok:
  "\<exists>e. make_sermon epoch_runtime index (dated_item\<lparr>item_content := c\<rparr>) = Inr e"
  by (simp add: make_sermon_def Let_def iso_of_def dated_item_def new_Date_def or_else_def
      epoch_runtime_def parseDuration_def to_jsval_def)





text \<open>
  Claim C10. Every entry the callback constructs has a title and a speaker that are not
  empty; an absent (or empty) title gives \<open>Untitled Sermon\<close>, an absent (or empty)
  author gives \<open>Unknown Speaker\<close>. The same holds for every entry of the collection, and
  the speakers facet consists of the speakers of the entries, so it never contains the
  empty string.
\<close>

theorem sermon_title_speaker:
  "(make_sermon rt index item = Inr e \<longrightarrow>
      title e \<noteq> [] \<and> speaker e \<noteq> []
      \<and> (item_title item = None \<or> item_title item = Some [] \<longrightarrow> title e = ''Untitled Sermon'')
      \<and> (item_speaker item = None \<or> item_speaker item = Some [] \<longrightarrow> speaker e = ''Unknown Speaker''))
   \<and> (\<forall>s\<in>set (items (sermons_data rt fetched)). title s \<noteq> [] \<and> speaker s \<noteq> [])
   \<and> set (speakers (meta (sermons_data rt fetched)))
        = speaker ` set (items (sermons_data rt fetched))
   \<and> [] \<notin> set (speakers (meta (sermons_data rt fetched)))"
proof -
  have one: "title s \<noteq> [] \<and> speaker s \<noteq> []" if "make_sermon rt j it = Inr s" for j it s
    using make_sermon_fields(2,3) [OF that] by (simp add: or_else_nonempty)
  have a: "make_sermon rt index item = Inr e \<longrightarrow>
      title e \<noteq> [] \<and> speaker e \<noteq> []
      \<and> (item_title item = None \<or> item_title item = Some [] \<longrightarrow> title e = ''Untitled Sermon'')
      \<and> (item_speaker item = None \<or> item_speaker item = Some [] \<longrightarrow> speaker e = ''Unknown Speaker'')"
  proof
    assume m: "make_sermon rt index item = Inr e"
    from make_sermon_fields(2,3) [OF m] one [OF m]
    show "title e \<noteq> [] \<and> speaker e \<noteq> []
      \<and> (item_title item = None \<or> item_title item = Some [] \<longrightarrow> title e = ''Untitled Sermon'')
      \<and> (item_speaker item = None \<or> item_speaker item = Some [] \<longrightarrow> speaker e = ''Unknown Speaker'')"
      by (auto simp: or_else_def)
  qed
  have b: "\<forall>s\<in>set (items (sermons_data rt fetched)). title s \<noteq> [] \<and> speaker s \<noteq> []"
    using items_members one by blast
  have c: "set (speakers (meta (sermons_data rt fetched)))
        = speaker ` set (items (sermons_data rt fetched))"
    by (simp add: speakers_eq speakers_facet_def set_sort_by set_dedupe)
  from b c have d: "[] \<notin> set (speakers (meta (sermons_data rt fetched)))" by auto
  from a b c d show ?thesis by blast
qed

lemma example_feed:
  "sermons_data epoch_runtime (Inr \<lparr>feed_items = [dated_item], feed_title = None, feed_lastBuildDate = None\<rparr>)
     = X \<Longrightarrow> speakers (meta X) = [''Unknown Speaker''] \<and> map title (items X) = [''Untitled Sermon'']"
  by (auto simp add: sermons_data_def make_sermon_def Let_def iso_of_def dated_item_def new_Date_def
      or_else_def epoch_runtime_def parseDuration_def to_jsval_def speakers_facet_def sort_by_def
      dedupe_def)

theorem sermon_title_speaker_witness:
  "(\<exists>e. make_sermon epoch_runtime 0 dated_item = Inr e
        \<and> title e = ''Untitled Sermon'' \<and> speaker e = ''Unknown Speaker'')
   \<and> speakers (meta (sermons_data epoch_runtime
         (Inr \<lparr>feed_items = [dated_item], feed_title = None, feed_lastBuildDate = None\<rparr>)))
       = [''Unknown Speaker'']
   \<and> [] \<notin> set (speakers (meta (sermons_data epoch_runtime
         (Inr \<lparr>feed_items = [dated_item], feed_title = None, feed_lastBuildDate = None\<rparr>))))"
proof -
  let ?f = "Inr \<lparr>feed_items = [dated_item], feed_title = None, feed_lastBuildDate = None\<rparr>"
  from dated_item_ok [of 0 None] obtain e where e: "make_sermon epoch_runtime 0 dated_item = Inr e"
    by (auto simp: dated_item_def)
  have t: "item_title dated_item = None" "item_speaker dated_item = None"
    by (simp_all add: dated_item_def)
  note inst = sermon_title_speaker [of epoch_runtime 0 dated_item e ?f]
  from inst e t have "title e = ''Untitled Sermon'' \<and> speaker e = ''Unknown Speaker''" by blast
  moreover from example_feed have "speakers (meta (sermons_data epoch_runtime ?f)) = [''Unknown Speaker'']"
    by blast
  moreover from inst have "[] \<notin> set (speakers (meta (sermons_data epoch_runtime ?f)))" by blast
  ultimately show ?thesis using e by blast
qed

section \<open>The books facet\<close>

lemma consistent_on_iff:
  "consistent_on cmp xs \<longleftrightarrow>
     (\<forall>a\<in>set xs. \<forall>b\<in>set xs. (cmp a b < 0 \<longleftrightarrow> 0 < cmp b a)
        \<and> (\<forall>c\<in>set xs. cmp a b \<le> 0 \<and> cmp b c \<le> 0 \<longrightarrow> cmp a c \<le> 0))"
  by (simp add: consistent_on_def list_all_iff)

lemma consistent_on_flip:
  "consistent_on cmp xs \<Longrightarrow> a \<in> set xs \<Longrightarrow> b \<in> set xs \<Longrightarrow> cmp a b < 0 \<longleftrightarrow> 0 < cmp b a"
  unfolding consistent_on_iff by blast

lemma consistent_on_trans:
  "consistent_on cmp xs \<Longrightarrow> a \<in> set xs \<Longrightarrow> b \<in> set xs \<Longrightarrow> c \<in> set xs
     \<Longrightarrow> cmp a b \<le> 0 \<Longrightarrow> cmp b c \<le> 0 \<Longrightarrow> cmp a c \<le> 0"
  unfolding consistent_on_iff by blast

lemma consistent_on_subset:
  "consistent_on cmp xs \<Longrightarrow> set ys \<subseteq> set xs \<Longrightarrow> consistent_on cmp ys"
  unfolding consistent_on_iff by (meson subsetD)

text \<open>Insertion keeps a list sorted, and so the sort gives a sorted list.\<close>

lemma sorted_insert_by:
  assumes "consistent_on cmp (x # ys)" and "sorted_wrt (\<lambda>a b. cmp a b \<le> 0) ys"
  shows "sorted_wrt (\<lambda>a b. cmp a b \<le> 0) (insert_by cmp x ys)"
  using assms
proof (induction ys)
  case Nil
  show ?case by simp
next
  case (Cons y ys)
  note con = Cons.prems(1)
  from Cons.prems(2) have le: "\<forall>z\<in>set ys. cmp y z \<le> 0"
    and sorted: "sorted_wrt (\<lambda>a b. cmp a b \<le> 0) ys" by simp_all
  show ?case
  proof (cases "cmp x y \<le> 0")
    case True
    have "\<forall>z\<in>set ys. cmp x z \<le> 0"
    proof
      fix z assume z: "z \<in> set ys"
      with le have "cmp y z \<le> 0" by simp
      with consistent_on_trans [OF con, of x y z] True z show "cmp x z \<le> 0" by simp
    qed
    with True Cons.prems(2) show ?thesis by simp
  next
    case False
    then have "0 < cmp x y" by simp
    with consistent_on_flip [OF con, of y x] have yx: "cmp y x \<le> 0" by simp
    from con have "consistent_on cmp (x # ys)" by (rule consistent_on_subset) auto
    from Cons.IH [OF this sorted]
    have "sorted_wrt (\<lambda>a b. cmp a b \<le> 0) (insert_by cmp x ys)" .
    with False yx le show ?thesis by (simp add: set_insert_by)
  qed
qed

lemma sorted_sort_by:
  "consistent_on cmp xs \<Longrightarrow> sorted_wrt (\<lambda>a b. cmp a b \<le> 0) (sort_by cmp xs)"
proof (induction xs)
  case Nil
  show ?case by (simp add: sort_by_def)
next
  case (Cons x xs)
  from Cons.prems have "consistent_on cmp xs" by (rule consistent_on_subset) auto
  from Cons.IH [OF this] have s: "sorted_wrt (\<lambda>a b. cmp a b \<le> 0) (sort_by cmp xs)" .
  from Cons.prems have "consistent_on cmp (x # sort_by cmp xs)"
    by (rule consistent_on_subset) (simp add: set_sort_by)
  from sorted_insert_by [OF this s] show ?case by (simp add: sort_by_def)
qed

text \<open>
  The sort is stable: the elements that compare equal to a given one keep the order they
  had.
\<close>

lemma stable_insert_by:
  assumes "consistent_on cmp (z # x # ys)"
  shows "filter (\<lambda>y. cmp z y = 0) (insert_by cmp x ys) = filter (\<lambda>y. cmp z y = 0) (x # ys)"
  using assms
proof (induction ys)
  case Nil
  show ?case by simp
next
  case (Cons y ys)
  note con = Cons.prems
  from con have "consistent_on cmp (z # x # ys)" by (rule consistent_on_subset) auto
  note ih = Cons.IH [OF this]
  show ?case
  proof (cases "cmp x y \<le> 0")
    case True
    then show ?thesis by simp
  next
    case False
    have "\<not> (cmp z x = 0 \<and> cmp z y = 0)"
    proof
      assume e: "cmp z x = 0 \<and> cmp z y = 0"
      with consistent_on_flip [OF con, of z x] consistent_on_flip [OF con, of x z]
      have "cmp x z \<le> 0" by simp
      with consistent_on_trans [OF con, of x z y] e have "cmp x y \<le> 0" by simp
      with False show False by simp
    qed
    with False ih show ?thesis by auto
  qed
qed

lemma stable_sort_by:
  "consistent_on cmp (z # xs)
     \<Longrightarrow> filter (\<lambda>y. cmp z y = 0) (sort_by cmp xs) = filter (\<lambda>y. cmp z y = 0) xs"
proof (induction xs)
  case Nil
  show ?case by (simp add: sort_by_def)
next
  case (Cons x xs)
  from Cons.prems have "consistent_on cmp (z # xs)" by (rule consistent_on_subset) auto
  note ih = Cons.IH [OF this]
  from Cons.prems have "consistent_on cmp (z # x # sort_by cmp xs)"
    by (rule consistent_on_subset) (auto simp: set_sort_by)
  from stable_insert_by [OF this] ih show ?case by (simp add: sort_by_def)
qed

text \<open>
  In a sorted list an element the comparator puts strictly before another one stands
  before it.
\<close>

lemma sorted_index:
  assumes "sorted_wrt (\<lambda>a b. cmp a b \<le> 0) xs" and "i < length xs" and "j < length xs"
    and "0 < cmp (xs ! j) (xs ! i)" and "consistent_on cmp xs"
  shows "i < j"
proof (rule ccontr)
  assume "\<not> i < j"
  then consider "j < i" | "i = j" by linarith
  then show False
  proof cases
    case 1
    with assms(1,2) have "cmp (xs ! j) (xs ! i) \<le> 0" by (simp add: sorted_wrt_iff_nth_less)
    with assms(4) show False by simp
  next
    case 2
    from assms(2) have "xs ! i \<in> set xs" by simp
    from consistent_on_flip [OF assms(5) this this] assms(4) 2 show False by simp
  qed
qed

text \<open>The comparator on a book that starts with a digit and one that starts with a letter.\<close>

lemma digit_val_bound: "is_digit c \<Longrightarrow> digit_val c < 10"
  unfolding is_digit_def digit_val_def by auto

lemma digit_not_ws: "is_digit c \<Longrightarrow> \<not> is_ws c"
  unfolding is_digit_def is_ws_def by auto

lemma not_ws_cases:
  "\<not> is_ws c \<Longrightarrow> c \<noteq> CHR 0x09 \<and> c \<noteq> CHR 0x0A \<and> c \<noteq> CHR 0x0B \<and> c \<noteq> CHR 0x0C
     \<and> c \<noteq> CHR 0x0D \<and> c \<noteq> CHR '' '' \<and> c \<noteq> CHR 0xA0"
  by (simp add: is_ws_def)

lemma digit_weight: "is_digit c \<Longrightarrow> primary_weight c < 100"
  using digit_val_bound [of c] not_ws_cases [OF digit_not_ws, of c]
  by (simp add: primary_weight_def)

lemma alpha_not_digit: "is_alpha c \<Longrightarrow> \<not> is_digit c"
  unfolding is_alpha_def is_digit_def by auto

lemma alpha_not_ws: "is_alpha c \<Longrightarrow> \<not> is_ws c"
  unfolding is_alpha_def is_ws_def by auto

lemma alpha_weight: "is_alpha c \<Longrightarrow> 100 \<le> primary_weight c"
  using alpha_not_digit [of c] not_ws_cases [OF alpha_not_ws, of c]
  by (simp add: primary_weight_def)

lemma locale_digit_letter:
  assumes "is_digit c" and "is_alpha d"
  shows "localeCompare (c # a) (d # b) = - 1" and "localeCompare (d # b) (c # a) = 1"
proof -
  from digit_weight [OF assms(1)] alpha_weight [OF assms(2)]
  have "primary_weight c < primary_weight d" by simp
  then show "localeCompare (c # a) (d # b) = - 1" and "localeCompare (d # b) (c # a) = 1"
    by (simp_all add: localeCompare_def)
qed

lemma digit_before_letter:
  assumes "a \<noteq> []" and "is_digit (hd a)" and "b \<noteq> []" and "is_alpha (hd b)"
  shows "books_cmp a b = - 1" and "books_cmp b a = 1"
proof -
  from assms(1) obtain c a' where a: "a = c # a'" by (cases a) auto
  from assms(3) obtain d b' where b: "b = d # b'" by (cases b) auto
  from assms(4) b have "\<not> is_digit d" by (simp add: alpha_not_digit)
  with b have n: "leading_number b = None" by (simp add: leading_number_def)
  from n have "books_cmp a b = localeCompare a b" "books_cmp b a = localeCompare b a"
    by (simp_all add: books_cmp_def Let_def split: option.splits)
  with locale_digit_letter(1) [of c d a' b'] locale_digit_letter(2) [of c d b' a'] assms(2,4) a b
  show "books_cmp a b = - 1" and "books_cmp b a = 1" by simp_all
qed

lemma books_nonempty: "[] \<notin> set (books_of bs)"
  by (simp add: books_of_def set_sort_by set_dedupe)

lemma books_sorted:
  assumes "consistent_on books_cmp (filter (\<lambda>b. b \<noteq> []) bs)"
  shows "sorted_wrt (\<lambda>a b. books_cmp a b \<le> 0) (books_of bs)"
proof -
  from assms have "consistent_on books_cmp (dedupe (filter (\<lambda>b. b \<noteq> []) bs))"
    by (rule consistent_on_subset) (simp add: set_dedupe)
  from sorted_sort_by [OF this] show ?thesis by (simp add: books_of_def)
qed

lemma books_prefixed_first:
  assumes "consistent_on books_cmp (filter (\<lambda>b. b \<noteq> []) bs)"
    and "i < length (books_of bs)" and "j < length (books_of bs)"
    and "is_digit (hd (books_of bs ! i))" and "is_alpha (hd (books_of bs ! j))"
  shows "i < j"
proof -
  from assms(2,3) books_nonempty [of bs]
  have ne: "books_of bs ! i \<noteq> []" "books_of bs ! j \<noteq> []" by (metis nth_mem)+
  from digit_before_letter(2) [OF ne(1) assms(4) ne(2) assms(5)]
  have gt: "0 < books_cmp (books_of bs ! j) (books_of bs ! i)" by simp
  from assms(1) have "consistent_on books_cmp (books_of bs)"
    by (rule consistent_on_subset) (simp add: books_of_def set_sort_by set_dedupe)
  from sorted_index [OF books_sorted [OF assms(1)] assms(2,3) gt this] show ?thesis .
qed

lemma books_stable:
  assumes "consistent_on books_cmp (z # filter (\<lambda>b. b \<noteq> []) bs)"
  shows "filter (\<lambda>y. books_cmp z y = 0) (books_of bs)
           = filter (\<lambda>y. books_cmp z y = 0) (dedupe (filter (\<lambda>b. b \<noteq> []) bs))"
proof -
  from assms have "consistent_on books_cmp (z # dedupe (filter (\<lambda>b. b \<noteq> []) bs))"
    by (rule consistent_on_subset) (simp add: set_dedupe)
  from stable_sort_by [OF this] show ?thesis by (simp add: books_of_def)
qed

text \<open>The comparator on the books of the two examples.\<close>

lemmas cmp_eval = books_cmp_def leading_number_def strip_number_def localeCompare_def
  primary_weight_def tertiary_weight_def is_digit_def is_alpha_def is_ws_def digit_val_def
  dec_value_def lower_char_def Let_def

lemma cmp_johns:
  "books_cmp ''1 John'' ''1 John'' = 0" "books_cmp ''1 John'' ''2 John'' = - 1"
  "books_cmp ''1 John'' ''3 John'' = - 2" "books_cmp ''2 John'' ''1 John'' = 1"
  "books_cmp ''2 John'' ''2 John'' = 0" "books_cmp ''2 John'' ''3 John'' = - 1"
  "books_cmp ''3 John'' ''1 John'' = 2" "books_cmp ''3 John'' ''2 John'' = 1"
  "books_cmp ''3 John'' ''3 John'' = 0"
  by (simp_all add: cmp_eval)

lemma cmp_acts:
  "books_cmp ''Acts'' ''Acts'' = 0" "books_cmp ''Acts'' ''John'' = - 1"
  "books_cmp ''John'' ''Acts'' = 1" "books_cmp ''John'' ''John'' = 0"
  by (simp_all add: cmp_eval)

lemma cmp_mixed:
  "books_cmp ''1 John'' ''Acts'' = - 1" "books_cmp ''2 John'' ''Acts'' = - 1"
  "books_cmp ''3 John'' ''Acts'' = - 1" "books_cmp ''1 John'' ''John'' = - 1"
  "books_cmp ''Acts'' ''1 John'' = 1" "books_cmp ''Acts'' ''2 John'' = 1"
  "books_cmp ''Acts'' ''3 John'' = 1" "books_cmp ''John'' ''1 John'' = 1"
  by (simp_all add: digit_before_letter is_digit_def is_alpha_def)

lemma books_example:
  "books_of [''2 John'', ''1 John'', ''3 John'', ''Acts''] = [''1 John'', ''2 John'', ''3 John'', ''Acts'']"
  by (simp add: books_of_def dedupe_def sort_by_def cmp_johns cmp_acts cmp_mixed)

lemma books_apart:
  "books_of [''John'', ''Acts'', ''1 John''] = [''1 John'', ''Acts'', ''John'']"
  by (simp add: books_of_def dedupe_def sort_by_def cmp_johns cmp_acts cmp_mixed)

lemma books_example_consistent:
  "consistent_on books_cmp [''2 John'', ''1 John'', ''3 John'', ''Acts'']"
  "consistent_on books_cmp [''John'', ''Acts'', ''1 John'']"
  by (simp_all add: consistent_on_def cmp_johns cmp_acts cmp_mixed)

text \<open>
  The locale comparison orders strings consistently: it compares two lists of weights,
  the first difference deciding, and then two more.
\<close>

lemma lex_cmp_refl: "lex_cmp xs xs = 0"
  by (induction xs) simp_all

lemma lex_cmp_eq: "lex_cmp xs ys = 0 \<Longrightarrow> xs = ys"
  by (induction xs ys rule: lex_cmp.induct) (simp_all split: if_splits)

lemma lex_cmp_flip: "lex_cmp xs ys < 0 \<longleftrightarrow> 0 < lex_cmp ys xs"
  by (induction xs ys rule: lex_cmp.induct) simp_all

lemma lex_cmp_trans:
  "lex_cmp xs ys < 0 \<Longrightarrow> lex_cmp ys zs < 0 \<Longrightarrow> lex_cmp xs zs < 0"
proof (induction xs arbitrary: ys zs)
  case Nil
  then show ?case by (cases ys; cases zs) simp_all
next
  case (Cons x xs)
  from Cons.prems obtain y ys' where ys: "ys = y # ys'" by (cases ys) simp_all
  from Cons.prems ys obtain z zs' where zs: "zs = z # zs'" by (cases zs) simp_all
  from Cons.prems ys zs Cons.IH [of ys' zs'] show ?case
    by (simp split: if_splits)
qed

lemma lex_cmp_le:
  "lex_cmp xs ys \<le> 0 \<Longrightarrow> lex_cmp ys zs \<le> 0 \<Longrightarrow> lex_cmp xs zs \<le> 0"
proof -
  assume a: "lex_cmp xs ys \<le> 0" and b: "lex_cmp ys zs \<le> 0"
  show ?thesis
  proof (cases "lex_cmp xs ys = 0 \<or> lex_cmp ys zs = 0")
    case True
    then have "xs = ys \<or> ys = zs" using lex_cmp_eq by blast
    with a b show ?thesis by auto
  next
    case False
    with a b have "lex_cmp xs ys < 0" "lex_cmp ys zs < 0" by simp_all
    from lex_cmp_trans [OF this] show ?thesis by simp
  qed
qed

lemma locale_flip: "localeCompare a b < 0 \<longleftrightarrow> 0 < localeCompare b a"
proof (cases "lex_cmp (map primary_weight a) (map primary_weight b) = 0")
  case True
  from lex_cmp_eq [OF this] have "map primary_weight a = map primary_weight b" .
  then show ?thesis by (simp add: localeCompare_def lex_cmp_refl lex_cmp_flip)
next
  case False
  then have "lex_cmp (map primary_weight b) (map primary_weight a) \<noteq> 0"
    using lex_cmp_eq lex_cmp_refl by metis
  with False show ?thesis by (simp add: localeCompare_def lex_cmp_flip)
qed

lemma locale_le:
  "localeCompare a b \<le> 0 \<longleftrightarrow>
     lex_cmp (map primary_weight a) (map primary_weight b) < 0
     \<or> (map primary_weight a = map primary_weight b
         \<and> lex_cmp (map tertiary_weight a) (map tertiary_weight b) \<le> 0)"
  using lex_cmp_eq [of "map primary_weight a" "map primary_weight b"]
  by (auto simp: localeCompare_def Let_def lex_cmp_refl)

lemma locale_trans:
  assumes "localeCompare a b \<le> 0" and "localeCompare b c \<le> 0"
  shows "localeCompare a c \<le> 0"
proof -
  let ?p = "map primary_weight" and ?t = "map tertiary_weight"
  from assms consider
      (lt) "lex_cmp (?p a) (?p b) < 0" "lex_cmp (?p b) (?p c) < 0"
    | (le) "lex_cmp (?p a) (?p b) < 0" "?p b = ?p c"
    | (el) "?p a = ?p b" "lex_cmp (?p b) (?p c) < 0"
    | (ee) "?p a = ?p b" "?p b = ?p c" "lex_cmp (?t a) (?t b) \<le> 0" "lex_cmp (?t b) (?t c) \<le> 0"
    unfolding locale_le by blast
  then show ?thesis
  proof cases
    case lt
    from lex_cmp_trans [OF this] show ?thesis unfolding locale_le by simp
  next
    case le
    then show ?thesis unfolding locale_le by simp
  next
    case el
    then show ?thesis unfolding locale_le by simp
  next
    case ee
    from lex_cmp_le [OF ee(3,4)] ee(1,2) show ?thesis unfolding locale_le by simp
  qed
qed

text \<open>
  On books in the form of the canonical names the comparator has the sign of the locale
  comparison of the full strings, also for two books with a number and the same name.
\<close>

lemma canonical_cases:
  assumes "canonical_book b"
  shows "(b \<noteq> [] \<and> list_all is_alpha b)
         \<or> (\<exists>d n. b = d # CHR '' '' # n \<and> is_digit d \<and> n \<noteq> [] \<and> list_all is_alpha n)"
  using assms by (auto simp: canonical_book_def split: list.splits if_splits)

lemma plain_book:
  assumes "b \<noteq> []" and "list_all is_alpha b"
  shows "leading_number b = None"
proof -
  from assms obtain c r where "b = c # r" "is_alpha c" by (cases b) auto
  then show ?thesis by (simp add: leading_number_def alpha_not_digit)
qed

lemma numbered_book:
  assumes "is_digit d" and "n \<noteq> []" and "list_all is_alpha n"
  shows "leading_number (d # CHR '' '' # n) = Some [d]"
    and "strip_number (d # CHR '' '' # n) = n"
proof -
  have s: "\<not> is_digit CHR '' ''" "is_ws CHR '' ''" by (simp_all add: is_digit_def is_ws_def)
  from assms(2,3) have "\<not> is_ws (hd n)" by (cases n) (auto simp: alpha_not_ws)
  with assms(2) have "dropWhile is_ws n = n" by (simp add: dropWhile_self)
  with assms(1) s show "leading_number (d # CHR '' '' # n) = Some [d]"
    and "strip_number (d # CHR '' '' # n) = n"
    by (simp_all add: leading_number_def strip_number_def)
qed

lemma digit_not_alpha: "is_digit c \<Longrightarrow> \<not> is_alpha c"
  using alpha_not_digit by blast

lemma digit_weights:
  assumes "is_digit c"
  shows "primary_weight c = 20 + digit_val c" and "tertiary_weight c = 0"
  using assms not_ws_cases [OF digit_not_ws, of c] digit_not_alpha [of c]
  by (simp_all add: primary_weight_def tertiary_weight_def)

lemma same_name_sign:
  assumes "is_digit d" and "is_digit e"
  shows "(int (digit_val d) - int (digit_val e) < 0 \<longleftrightarrow> localeCompare (d # r) (e # r) < 0)
       \<and> (0 < int (digit_val d) - int (digit_val e) \<longleftrightarrow> 0 < localeCompare (d # r) (e # r))"
  using digit_weights [OF assms(1)] digit_weights [OF assms(2)]
  by (simp add: localeCompare_def Let_def lex_cmp_refl)

lemma canonical_sign:
  assumes "canonical_book a" and "canonical_book b"
  shows "(books_cmp a b < 0 \<longleftrightarrow> localeCompare a b < 0)
       \<and> (0 < books_cmp a b \<longleftrightarrow> 0 < localeCompare a b)"
proof (cases "leading_number a = None \<or> leading_number b = None
                \<or> strip_number a \<noteq> strip_number b")
  case True
  then have "books_cmp a b = localeCompare a b"
    by (auto simp: books_cmp_def Let_def split: option.splits)
  then show ?thesis by simp
next
  case False
  with canonical_cases [OF assms(1)] plain_book [of a]
  obtain d n where a: "a = d # CHR '' '' # n" "is_digit d" "n \<noteq> []" "list_all is_alpha n"
    by blast
  from False canonical_cases [OF assms(2)] plain_book [of b]
  obtain e m where b: "b = e # CHR '' '' # m" "is_digit e" "m \<noteq> []" "list_all is_alpha m"
    by blast
  note na = numbered_book [OF a(2,3,4)] and nb = numbered_book [OF b(2,3,4)]
  from False a(1) b(1) na nb have same: "m = n" by simp
  from a(1) b(1) na nb same
  have "books_cmp a b = int (digit_val d) - int (digit_val e)"
    by (simp add: books_cmp_def Let_def dec_value_def)
  with same_name_sign [OF a(2) b(2), of "CHR '' '' # n"] a(1) b(1) same show ?thesis by simp
qed

lemma canonical_consistent:
  assumes "list_all canonical_book bs"
  shows "consistent_on books_cmp bs"
  unfolding consistent_on_iff
proof (intro ballI conjI impI)
  fix a b assume a: "a \<in> set bs" and b: "b \<in> set bs"
  with assms have ca: "canonical_book a" and cb: "canonical_book b" by (simp_all add: list_all_iff)
  from canonical_sign [OF ca cb] canonical_sign [OF cb ca] locale_flip [of a b]
  show "books_cmp a b < 0 \<longleftrightarrow> 0 < books_cmp b a" by simp
  fix c assume c: "c \<in> set bs" and le: "books_cmp a b \<le> 0 \<and> books_cmp b c \<le> 0"
  with assms have cc: "canonical_book c" by (simp add: list_all_iff)
  from le canonical_sign [OF ca cb] canonical_sign [OF cb cc]
  have "localeCompare a b \<le> 0" "localeCompare b c \<le> 0" by linarith+
  from locale_trans [OF this] canonical_sign [OF ca cc] show "books_cmp a c \<le> 0" by linarith
qed

lemma canonical_sorted:
  assumes "list_all canonical_book (filter (\<lambda>b. b \<noteq> []) bs)"
  shows "sorted_wrt (\<lambda>a b. localeCompare a b \<le> 0) (books_of bs)"
proof -
  from books_sorted [OF canonical_consistent [OF assms]]
  have s: "sorted_wrt (\<lambda>a b. books_cmp a b \<le> 0) (books_of bs)" .
  have "\<forall>a\<in>set (books_of bs). canonical_book a"
    using assms by (simp add: books_of_def set_sort_by set_dedupe list_all_iff)
  then have "\<And>a b. a \<in> set (books_of bs) \<Longrightarrow> b \<in> set (books_of bs)
      \<Longrightarrow> books_cmp a b \<le> 0 \<Longrightarrow> localeCompare a b \<le> 0"
    using canonical_sign by (metis not_less)
  from sorted_wrt_mono_rel [of "books_of bs", OF this s] show ?thesis by simp
qed

text \<open>A feed of two sermons and its books.\<close>

lemma books_feed_normalized:
  "normalizeScripture (Str ''2 John 1'') = ''2 John 1''"
  "normalizeScripture (Str ''Genesis 1'') = ''Genesis 1''"
  by (simp_all add: normalizeScripture_def bookNormalization_def alias_matches_def trim_def
      is_ws_def lower_eval)

lemma books_feed_extracted:
  "extractBook ''2 John 1'' = ''2 John''" "extractBook ''Genesis 1'' = ''Genesis''"
  by (simp_all add: extractBook_def trim_def is_ws_def is_digit_def is_alpha_def Let_def)

lemma books_feed_books:
  "map book (items (sermons_data epoch_runtime (Inr books_feed))) = [''2 John'', ''Genesis'']"
  by (simp add: books_feed_def sermons_data_def make_sermon_def Let_def iso_of_def dated_item_def
      new_Date_def or_else_def epoch_runtime_def parseDuration_def to_jsval_def sort_by_def
      scripture_of_def by_date_desc_def diff_or_zero_def books_feed_normalized
      books_feed_extracted)

lemma cmp_genesis:
  "books_cmp ''Genesis'' ''Genesis'' = 0" "books_cmp ''2 John'' ''Genesis'' = - 1"
  "books_cmp ''Genesis'' ''2 John'' = 1"
proof -
  show "books_cmp ''Genesis'' ''Genesis'' = 0" by (simp add: cmp_eval)
  show "books_cmp ''2 John'' ''Genesis'' = - 1" "books_cmp ''Genesis'' ''2 John'' = 1"
    by (simp_all add: digit_before_letter is_digit_def is_alpha_def)
qed

lemma books_feed_facet:
  "books_of [''2 John'', ''Genesis''] = [''2 John'', ''Genesis'']"
  by (simp add: books_of_def dedupe_def sort_by_def cmp_genesis)

text \<open>
  Claim C1, as the code has it. The books facet holds every non-empty book once. Its
  comparator orders two books that both start with a number and share the rest of the
  name by that number, and every other pair by the locale comparison of the full strings.
  Wherever the comparator orders the books at hand consistently the facet is sorted by
  it, books that compare equal in the order they had; a book that starts with a digit
  then stands before every book that starts with a letter, not next to its base name.
  The comparator is consistent on books in the form of the canonical names, and has the
  sign of the locale comparison of the full strings there, so that the facet is in the
  locale order of the full strings. For the books \<open>2 John\<close>, \<open>1 John\<close>, \<open>3 John\<close>,
  \<open>Acts\<close> the facet is \<open>1 John\<close>, \<open>2 John\<close>, \<open>3 John\<close>, \<open>Acts\<close>.
\<close>

theorem books_facet_order:
  "distinct (books (meta (sermons_data rt fetched)))
   \<and> set (books (meta (sermons_data rt fetched)))
       = book ` set (items (sermons_data rt fetched)) - {[]}
   \<and> (consistent_on books_cmp
          (filter (\<lambda>b. b \<noteq> []) (map book (items (sermons_data rt fetched))))
        \<longrightarrow> sorted_wrt (\<lambda>a b. books_cmp a b \<le> 0) (books (meta (sermons_data rt fetched))))
   \<and> distinct (books_of bs) \<and> set (books_of bs) = set bs - {[]}
   \<and> (consistent_on books_cmp (filter (\<lambda>b. b \<noteq> []) bs)
        \<longrightarrow> sorted_wrt (\<lambda>a b. books_cmp a b \<le> 0) (books_of bs))
   \<and> (consistent_on books_cmp (z # filter (\<lambda>b. b \<noteq> []) bs)
        \<longrightarrow> filter (\<lambda>y. books_cmp z y = 0) (books_of bs)
              = filter (\<lambda>y. books_cmp z y = 0) (dedupe (filter (\<lambda>b. b \<noteq> []) bs)))
   \<and> (consistent_on books_cmp (filter (\<lambda>b. b \<noteq> []) bs)
        \<and> i < length (books_of bs) \<and> j < length (books_of bs)
        \<and> is_digit (hd (books_of bs ! i)) \<and> is_alpha (hd (books_of bs ! j))
        \<longrightarrow> i < j)
   \<and> (list_all canonical_book (filter (\<lambda>b. b \<noteq> []) bs)
        \<longrightarrow> consistent_on books_cmp (filter (\<lambda>b. b \<noteq> []) bs)
            \<and> sorted_wrt (\<lambda>a b. localeCompare a b \<le> 0) (books_of bs))
   \<and> (leading_number a = Some m \<and> leading_number b = Some n \<and> strip_number a = strip_number b
        \<and> dec_value m \<le> max_exact \<and> dec_value n \<le> max_exact
        \<longrightarrow> books_cmp a b = dec_value m - dec_value n)
   \<and> (leading_number a = None \<or> leading_number b = None \<or> strip_number a \<noteq> strip_number b
        \<longrightarrow> books_cmp a b = localeCompare a b)
   \<and> (a \<noteq> [] \<and> is_digit (hd a) \<and> b \<noteq> [] \<and> is_alpha (hd b) \<longrightarrow> books_cmp a b < 0)
   \<and> consistent_on books_cmp [''2 John'', ''1 John'', ''3 John'', ''Acts'']
   \<and> books_of [''2 John'', ''1 John'', ''3 John'', ''Acts'']
       = [''1 John'', ''2 John'', ''3 John'', ''Acts'']
   \<and> consistent_on books_cmp [''John'', ''Acts'', ''1 John'']
   \<and> books_of [''John'', ''Acts'', ''1 John''] = [''1 John'', ''Acts'', ''John'']"
proof -
  let ?X = "sermons_data rt fetched"
  have eq: "books (meta ?X) = books_of (map book (items ?X))" by (rule books_eq)
  have d: "distinct (books_of xs)" for xs
    by (simp add: books_of_def distinct_sort_by distinct_dedupe)
  have s: "set (books_of xs) = set xs - {[]}" for xs
    by (auto simp: books_of_def set_sort_by set_dedupe)
  have "distinct (books (meta ?X))" unfolding eq by (rule d)
  moreover have "set (books (meta ?X)) = book ` set (items ?X) - {[]}"
    unfolding eq s by simp
  moreover have "consistent_on books_cmp (filter (\<lambda>b. b \<noteq> []) (map book (items ?X)))
        \<longrightarrow> sorted_wrt (\<lambda>a b. books_cmp a b \<le> 0) (books (meta ?X))"
    unfolding eq using books_sorted by blast
  moreover note d [of bs] s [of bs]
  moreover have "consistent_on books_cmp (filter (\<lambda>b. b \<noteq> []) bs)
        \<longrightarrow> sorted_wrt (\<lambda>a b. books_cmp a b \<le> 0) (books_of bs)"
    using books_sorted by blast
  moreover have "consistent_on books_cmp (z # filter (\<lambda>b. b \<noteq> []) bs)
        \<longrightarrow> filter (\<lambda>y. books_cmp z y = 0) (books_of bs)
              = filter (\<lambda>y. books_cmp z y = 0) (dedupe (filter (\<lambda>b. b \<noteq> []) bs))"
    using books_stable by blast
  moreover have "consistent_on books_cmp (filter (\<lambda>b. b \<noteq> []) bs)
        \<and> i < length (books_of bs) \<and> j < length (books_of bs)
        \<and> is_digit (hd (books_of bs ! i)) \<and> is_alpha (hd (books_of bs ! j))
        \<longrightarrow> i < j"
    using books_prefixed_first by blast
  moreover have "list_all canonical_book (filter (\<lambda>b. b \<noteq> []) bs)
        \<longrightarrow> consistent_on books_cmp (filter (\<lambda>b. b \<noteq> []) bs)
            \<and> sorted_wrt (\<lambda>a b. localeCompare a b \<le> 0) (books_of bs)"
    using canonical_consistent canonical_sorted by blast
  moreover have "leading_number a = Some m \<and> leading_number b = Some n
        \<and> strip_number a = strip_number b
        \<and> dec_value m \<le> max_exact \<and> dec_value n \<le> max_exact
        \<longrightarrow> books_cmp a b = dec_value m - dec_value n"
    by (simp add: books_cmp_def Let_def)
  moreover have "leading_number a = None \<or> leading_number b = None
        \<or> strip_number a \<noteq> strip_number b
        \<longrightarrow> books_cmp a b = localeCompare a b"
    by (auto simp: books_cmp_def Let_def split: option.splits)
  moreover have "a \<noteq> [] \<and> is_digit (hd a) \<and> b \<noteq> [] \<and> is_alpha (hd b) \<longrightarrow> books_cmp a b < 0"
    using digit_before_letter(1) [of a b] by simp
  moreover note books_example_consistent(1) books_example books_example_consistent(2) books_apart
  ultimately show ?thesis by (intro conjI)
qed

theorem books_facet_order_witness:
  "consistent_on books_cmp
     (filter (\<lambda>b. b \<noteq> []) (map book (items (sermons_data epoch_runtime (Inr books_feed)))))
   \<and> sorted_wrt (\<lambda>a b. books_cmp a b \<le> 0)
       (books (meta (sermons_data epoch_runtime (Inr books_feed))))
   \<and> set (books (meta (sermons_data epoch_runtime (Inr books_feed)))) = {''2 John'', ''Genesis''}
   \<and> list_all canonical_book (filter (\<lambda>b. b \<noteq> []) [''2 John'', ''1 John'', ''3 John'', ''Acts''])
   \<and> consistent_on books_cmp (filter (\<lambda>b. b \<noteq> []) [''2 John'', ''1 John'', ''3 John'', ''Acts''])
   \<and> sorted_wrt (\<lambda>a b. books_cmp a b \<le> 0) (books_of [''2 John'', ''1 John'', ''3 John'', ''Acts''])
   \<and> sorted_wrt (\<lambda>a b. localeCompare a b \<le> 0) (books_of [''2 John'', ''1 John'', ''3 John'', ''Acts''])
   \<and> consistent_on books_cmp
       (''1 John'' # filter (\<lambda>b. b \<noteq> []) [''2 John'', ''1 John'', ''3 John'', ''Acts''])
   \<and> filter (\<lambda>y. books_cmp ''1 John'' y = 0) (books_of [''2 John'', ''1 John'', ''3 John'', ''Acts''])
       = filter (\<lambda>y. books_cmp ''1 John'' y = 0)
           (dedupe (filter (\<lambda>b. b \<noteq> []) [''2 John'', ''1 John'', ''3 John'', ''Acts'']))
   \<and> 2 < length (books_of [''2 John'', ''1 John'', ''3 John'', ''Acts''])
   \<and> 3 < length (books_of [''2 John'', ''1 John'', ''3 John'', ''Acts''])
   \<and> is_digit (hd (books_of [''2 John'', ''1 John'', ''3 John'', ''Acts''] ! 2))
   \<and> is_alpha (hd (books_of [''2 John'', ''1 John'', ''3 John'', ''Acts''] ! 3))
   \<and> leading_number ''1 John'' = Some ''1'' \<and> leading_number ''2 John'' = Some ''2''
   \<and> strip_number ''1 John'' = strip_number ''2 John''
   \<and> dec_value ''1'' \<le> max_exact \<and> dec_value ''2'' \<le> max_exact
   \<and> books_cmp ''1 John'' ''2 John'' = dec_value ''1'' - dec_value ''2''
   \<and> leading_number ''Acts'' = None
   \<and> books_cmp ''1 John'' ''Acts'' = localeCompare ''1 John'' ''Acts''
   \<and> is_digit (hd ''1 John'') \<and> is_alpha (hd ''Acts'')
   \<and> books_cmp ''1 John'' ''Acts'' < 0"
proof -
  let ?L = "[''2 John'', ''1 John'', ''3 John'', ''Acts'']"
  let ?X = "sermons_data epoch_runtime (Inr books_feed)"
  let ?F = "filter (\<lambda>b. b \<noteq> []) ?L"
  note i1 = books_facet_order [of epoch_runtime "Inr books_feed" ?L "''1 John''" 2 3
      "''1 John''" "''1''" "''2 John''" "''2''"]
  note i2 = books_facet_order [of epoch_runtime "Inr books_feed" ?L "''1 John''" 2 3
      "''1 John''" "''1''" "''Acts''" "''2''"]
  have c1: "consistent_on books_cmp (filter (\<lambda>b. b \<noteq> []) (map book (items ?X)))"
    unfolding books_feed_books by (simp add: consistent_on_def cmp_johns cmp_genesis)
  from i1 have "consistent_on books_cmp (filter (\<lambda>b. b \<noteq> []) (map book (items ?X)))
      \<longrightarrow> sorted_wrt (\<lambda>a b. books_cmp a b \<le> 0) (books (meta ?X))"
    by (elim conjE)
  with c1 have s1: "sorted_wrt (\<lambda>a b. books_cmp a b \<le> 0) (books (meta ?X))" by (rule rev_mp)
  from i1 have "set (books (meta ?X)) = book ` set (items ?X) - {[]}" by (elim conjE)
  also have "book ` set (items ?X) = set (map book (items ?X))" by simp
  finally have s2: "set (books (meta ?X)) = {''2 John'', ''Genesis''}"
    unfolding books_feed_books by auto
  have k: "list_all canonical_book ?F"
    by (simp add: canonical_book_def is_digit_def is_alpha_def)
  from i1 have "list_all canonical_book ?F
      \<longrightarrow> consistent_on books_cmp ?F
          \<and> sorted_wrt (\<lambda>a b. localeCompare a b \<le> 0) (books_of ?L)"
    by (elim conjE)
  with k have "consistent_on books_cmp ?F
          \<and> sorted_wrt (\<lambda>a b. localeCompare a b \<le> 0) (books_of ?L)" by (rule rev_mp)
  then have c2: "consistent_on books_cmp ?F"
    and s4: "sorted_wrt (\<lambda>a b. localeCompare a b \<le> 0) (books_of ?L)"
    by (rule conjunct1, rule conjunct2)
  from i1 have "consistent_on books_cmp ?F
      \<longrightarrow> sorted_wrt (\<lambda>a b. books_cmp a b \<le> 0) (books_of ?L)"
    by (elim conjE)
  with c2 have s3: "sorted_wrt (\<lambda>a b. books_cmp a b \<le> 0) (books_of ?L)" by (rule rev_mp)
  have c3: "consistent_on books_cmp (''1 John'' # ?F)"
    by (simp add: consistent_on_def cmp_johns cmp_acts cmp_mixed)
  from i1 have "consistent_on books_cmp (''1 John'' # ?F)
      \<longrightarrow> filter (\<lambda>y. books_cmp ''1 John'' y = 0) (books_of ?L)
            = filter (\<lambda>y. books_cmp ''1 John'' y = 0) (dedupe ?F)"
    by (elim conjE)
  with c3 have st: "filter (\<lambda>y. books_cmp ''1 John'' y = 0) (books_of ?L)
       = filter (\<lambda>y. books_cmp ''1 John'' y = 0) (dedupe ?F)" by (rule rev_mp)
  have ix: "2 < length (books_of ?L)" "3 < length (books_of ?L)"
    "is_digit (hd (books_of ?L ! 2))" "is_alpha (hd (books_of ?L ! 3))"
    unfolding books_example by (simp_all add: is_digit_def is_alpha_def)
  have h: "leading_number ''1 John'' = Some ''1''" "leading_number ''2 John'' = Some ''2''"
    "strip_number ''1 John'' = strip_number ''2 John''" "leading_number ''Acts'' = None"
    by (simp_all add: leading_number_def strip_number_def is_digit_def is_ws_def)
  have v: "dec_value ''1'' \<le> max_exact" "dec_value ''2'' \<le> max_exact"
    by (simp_all add: dec_value_def digit_val_def max_exact_def)
  from i1 have "leading_number ''1 John'' = Some ''1'' \<and> leading_number ''2 John'' = Some ''2''
      \<and> strip_number ''1 John'' = strip_number ''2 John''
      \<and> dec_value ''1'' \<le> max_exact \<and> dec_value ''2'' \<le> max_exact
      \<longrightarrow> books_cmp ''1 John'' ''2 John'' = dec_value ''1'' - dec_value ''2''"
    by (elim conjE)
  with h v have n: "books_cmp ''1 John'' ''2 John'' = dec_value ''1'' - dec_value ''2''"
    by blast
  from i2 have "leading_number ''1 John'' = None \<or> leading_number ''Acts'' = None
      \<or> strip_number ''1 John'' \<noteq> strip_number ''Acts''
      \<longrightarrow> books_cmp ''1 John'' ''Acts'' = localeCompare ''1 John'' ''Acts''"
    by (elim conjE)
  with h have l: "books_cmp ''1 John'' ''Acts'' = localeCompare ''1 John'' ''Acts''" by blast
  have g: "is_digit (hd ''1 John'')" "is_alpha (hd ''Acts'')"
    by (simp_all add: is_digit_def is_alpha_def)
  from i2 have "''1 John'' \<noteq> [] \<and> is_digit (hd ''1 John'') \<and> ''Acts'' \<noteq> []
      \<and> is_alpha (hd ''Acts'') \<longrightarrow> books_cmp ''1 John'' ''Acts'' < 0"
    by (elim conjE)
  with g have b: "books_cmp ''1 John'' ''Acts'' < 0" by simp
  from c1 s1 s2 k c2 s3 s4 c3 st ix h v n l g b show ?thesis by (intro conjI)
qed

text \<open>
  The claim as written fails on its own example: \<open>Acts\<close> comes last, not first.
\<close>

theorem books_facet_order_counterexample:
  "books_of [''2 John'', ''1 John'', ''3 John'', ''Acts'']
     \<noteq> [''Acts'', ''1 John'', ''2 John'', ''3 John'']"
  by (simp add: books_of_def dedupe_def sort_by_def cmp_johns cmp_acts cmp_mixed)

section \<open>The duration parser\<close>

lemma split_on_none: "c \<notin> set a \<Longrightarrow> split_on c a = [a]"
  by (induction a) auto

lemma split_on_append: "c \<notin> set a \<Longrightarrow> split_on c (a @ c # r) = a # split_on c r"
  by (induction a) auto

lemma digit_not_mark:
  "is_digit c \<Longrightarrow> c \<noteq> CHR ''+'' \<and> c \<noteq> CHR ''-'' \<and> c \<noteq> CHR ''x'' \<and> c \<noteq> CHR ''X''
     \<and> c \<noteq> CHR ''o'' \<and> c \<noteq> CHR ''O'' \<and> c \<noteq> CHR ''b'' \<and> c \<noteq> CHR ''B''"
  unfolding is_digit_def by auto

lemma digits_unsigned:
  assumes "list_all is_digit d"
  shows "unsigned d = d" and "sign_of d = 1"
proof -
  have "\<not> prefix ''+'' d \<and> \<not> prefix ''-'' d"
  proof (cases d)
    case Nil
    then show ?thesis by simp
  next
    case (Cons x xs)
    with assms have "is_digit x" by simp
    from digit_not_mark [OF this] Cons show ?thesis by auto
  qed
  then show "unsigned d = d" and "sign_of d = 1" by (simp_all add: unsigned_def sign_of_def)
qed

lemma digits_radix_none:
  assumes "list_all is_digit d"
  shows "radix_of d = None"
proof (cases d)
  case Nil
  then show ?thesis by (simp add: radix_of_def)
next
  case (Cons x xs)
  show ?thesis
  proof (cases xs)
    case Nil
    with Cons show ?thesis by (simp add: radix_of_def)
  next
    case inner: (Cons y ys)
    with Cons assms have "is_digit y" by simp
    from digit_not_mark [OF this] Cons inner show ?thesis by (auto simp: radix_of_def)
  qed
qed

lemma digits_decimal:
  assumes "d \<noteq> []" and "list_all is_digit d"
  shows "decimal_literal d"
proof -
  from assms(2) have tw: "takeWhile is_digit d = d" and dw: "dropWhile is_digit d = []"
    by (simp_all add: list_all_iff)
  show ?thesis unfolding decimal_literal_def Let_def tw dw using assms(1) by simp
qed

lemma foldl_dec_nonneg:
  "0 \<le> acc \<Longrightarrow> 0 \<le> foldl (\<lambda>acc c. acc * 10 + int (digit_val c)) acc ds"
  by (induction ds arbitrary: acc) simp_all

lemma dec_value_nonneg: "0 \<le> dec_value ds"
  by (simp add: dec_value_def foldl_dec_nonneg)

lemma Number_decimal_field:
  assumes f: "decimal_field p" and b: "field_value p \<le> max_exact"
  shows "Number_of_string p = Fin (field_value p)"
proof (cases "trim p = []")
  case True
  then show ?thesis by (simp add: Number_of_string_def field_value_def dec_value_def)
next
  case False
  from f have d: "list_all is_digit (trim p)" by (simp add: decimal_field_def)
  from digits_decimal [OF False d] digits_unsigned(1) [OF d]
  have n: "numeric_literal (trim p)" by (simp add: numeric_literal_def)
  from b dec_value_nonneg [of "trim p"] have "\<bar>dec_value (trim p)\<bar> \<le> max_exact"
    by (simp add: field_value_def)
  with False n d show ?thesis
    by (simp add: Number_of_string_def digits_radix_none digits_unsigned exact_def
        field_value_def)
qed

lemma Number_non_numeric: "non_numeric p \<Longrightarrow> Number_of_string p = NaN"
  by (simp add: Number_of_string_def non_numeric_def)

lemma jadd_NaN: "jadd a NaN = NaN" "jadd NaN a = NaN"
  by (cases a; simp)+

lemma jmul_NaN: "jmul a NaN = NaN" "jmul NaN a = NaN"
  by (cases a; simp)+

lemma seconds_nan:
  assumes l: "length xs = 2 \<or> length xs = 3" and n: "NaN \<in> set xs"
  shows "seconds_of_parts xs = NaN"
proof -
  from l consider a b where "xs = [a, b]" | a b c where "xs = [a, b, c]"
    by (auto simp: numeral_2_eq_2 numeral_3_eq_3 length_Suc_conv)
  then show ?thesis
  proof cases
    case 1
    with n show ?thesis by (auto simp: jadd_NaN jmul_NaN)
  next
    case 2
    with n show ?thesis by (auto simp: jadd_NaN jmul_NaN)
  qed
qed

lemma split3:
  assumes "decimal_field h" "decimal_field m" "decimal_field s"
  shows "split_on CHR '':'' (h @ '':'' @ m @ '':'' @ s) = [h, m, s]"
  using assms by (simp add: decimal_field_def split_on_append split_on_none)

lemma split2:
  assumes "decimal_field m" "decimal_field s"
  shows "split_on CHR '':'' (m @ '':'' @ s) = [m, s]"
  using assms by (simp add: decimal_field_def split_on_append split_on_none)

lemma field_value_nonneg: "0 \<le> field_value p"
  by (simp add: field_value_def dec_value_nonneg)

lemma duration3:
  assumes f: "decimal_field h" "decimal_field m" "decimal_field s"
    and b: "3600 * field_value h + 60 * field_value m + field_value s \<le> max_exact"
  shows "parseDuration (Str (h @ '':'' @ m @ '':'' @ s))
           = Inr (Fin (3600 * field_value h + 60 * field_value m + field_value s))"
proof -
  define x where "x = h @ '':'' @ m @ '':'' @ s"
  have ne: "x \<noteq> []" by (simp add: x_def)
  have sp: "split_on CHR '':'' x = [h, m, s]" unfolding x_def by (rule split3 [OF f])
  note nn = field_value_nonneg [of h] field_value_nonneg [of m] field_value_nonneg [of s]
  from b nn have b': "field_value h \<le> max_exact" "field_value m \<le> max_exact"
    "field_value s \<le> max_exact"
    "\<bar>field_value h * 3600\<bar> \<le> max_exact" "\<bar>field_value m * 60\<bar> \<le> max_exact"
    "\<bar>field_value h * 3600 + field_value m * 60\<bar> \<le> max_exact"
    "\<bar>field_value h * 3600 + field_value m * 60 + field_value s\<bar> \<le> max_exact"
    by linarith+
  have "parseDuration (Str x)
          = Inr (seconds_of_parts [Fin (field_value h), Fin (field_value m), Fin (field_value s)])"
    using ne by (simp add: parseDuration_def sp Number_decimal_field f b')
  also have "\<dots> = Inr (Fin (field_value h * 3600 + field_value m * 60 + field_value s))"
    using b' by (simp add: exact_def)
  finally show ?thesis by (simp add: x_def algebra_simps)
qed

lemma duration2:
  assumes f: "decimal_field m" "decimal_field s"
    and b: "60 * field_value m + field_value s \<le> max_exact"
  shows "parseDuration (Str (m @ '':'' @ s)) = Inr (Fin (60 * field_value m + field_value s))"
proof -
  define x where "x = m @ '':'' @ s"
  have ne: "x \<noteq> []" by (simp add: x_def)
  have sp: "split_on CHR '':'' x = [m, s]" unfolding x_def by (rule split2 [OF f])
  note nn = field_value_nonneg [of m] field_value_nonneg [of s]
  from b nn have b': "field_value m \<le> max_exact" "field_value s \<le> max_exact"
    "\<bar>field_value m * 60\<bar> \<le> max_exact"
    "\<bar>field_value m * 60 + field_value s\<bar> \<le> max_exact"
    by linarith+
  have "parseDuration (Str x) = Inr (seconds_of_parts [Fin (field_value m), Fin (field_value s)])"
    using ne by (simp add: parseDuration_def sp Number_decimal_field f b')
  also have "\<dots> = Inr (Fin (field_value m * 60 + field_value s))"
    using b' by (simp add: exact_def)
  finally show ?thesis by (simp add: x_def algebra_simps)
qed

lemmas number_eval = Number_of_string_def numeric_literal_def radix_literal_def radix_of_def
  decimal_literal_def exponent_part_def unsigned_def sign_of_def trim_def is_ws_def is_digit_def
  dec_value_def digit_val_def exact_def max_exact_def Let_def

lemma duration_examples:
  "parseDuration (Str ''1:02:03'') = Inr (Fin 3723)"
  "parseDuration (Str ''5:30'') = Inr (Fin 330)"
  "parseDuration (Str ''5:xx'') = Inr NaN"
  "parseDuration (Str ''5:'') = Inr (Fin 300)"
  by (simp_all add: parseDuration_def number_eval)

lemma seconds_of_parts_other:
  "length ps \<noteq> 2 \<Longrightarrow> length ps \<noteq> 3 \<Longrightarrow> seconds_of_parts ps = Fin 0"
  by (induction ps rule: seconds_of_parts.induct) simp_all

lemma duration_other:
  assumes "length (split_on CHR '':'' t) \<noteq> 2" "length (split_on CHR '':'' t) \<noteq> 3"
  shows "parseDuration (Str t) = Inr (Fin 0)"
  using assms by (simp add: parseDuration_def seconds_of_parts_other)

lemma duration_total: "\<exists>n. parseDuration (Str t) = Inr n"
  by (simp add: parseDuration_def)

lemma duration_nan:
  assumes l: "length (split_on CHR '':'' t) = 2 \<or> length (split_on CHR '':'' t) = 3"
    and n: "list_ex non_numeric (split_on CHR '':'' t)"
  shows "parseDuration (Str t) = Inr NaN"
proof -
  from l have ne: "t \<noteq> []" by auto
  from n obtain p where "p \<in> set (split_on CHR '':'' t)" "non_numeric p"
    by (auto simp: list_ex_iff)
  then have "NaN \<in> set (map Number_of_string (split_on CHR '':'' t))"
    using Number_non_numeric by force
  with l have "seconds_of_parts (map Number_of_string (split_on CHR '':'' t)) = NaN"
    by (intro seconds_nan) simp_all
  with ne show ?thesis by (simp add: parseDuration_def)
qed

text \<open>
  Claim C4, as the code has it. \<open>H:MM:SS\<close> and \<open>MM:SS\<close> with decimal components give
  the total of seconds (3723 for \<open>1:02:03\<close>, 330 for \<open>5:30\<close>), a blank component
  counting as 0 (300 for \<open>5:\<close>); an absent or empty duration gives 0, and so does every
  string that does not have two or three colon-separated parts; no string raises an
  error. The components of a string with two or three parts are not checked: when one of
  them is neither blank nor a numeric literal the result is \<open>NaN\<close>, as for \<open>5:xx\<close>.
\<close>

theorem parse_duration:
  "parseDuration Undefined = Inr (Fin 0) \<and> parseDuration Null = Inr (Fin 0)
   \<and> parseDuration (Str []) = Inr (Fin 0)
   \<and> parseDuration (Str ''1:02:03'') = Inr (Fin 3723)
   \<and> parseDuration (Str ''5:30'') = Inr (Fin 330)
   \<and> parseDuration (Str ''5:'') = Inr (Fin 300)
   \<and> (decimal_field h \<and> decimal_field m \<and> decimal_field s
        \<and> 3600 * field_value h + 60 * field_value m + field_value s \<le> max_exact
      \<longrightarrow> parseDuration (Str (h @ '':'' @ m @ '':'' @ s))
            = Inr (Fin (3600 * field_value h + 60 * field_value m + field_value s)))
   \<and> (decimal_field m \<and> decimal_field s \<and> 60 * field_value m + field_value s \<le> max_exact
      \<longrightarrow> parseDuration (Str (m @ '':'' @ s)) = Inr (Fin (60 * field_value m + field_value s)))
   \<and> (length (split_on CHR '':'' t) \<noteq> 2 \<and> length (split_on CHR '':'' t) \<noteq> 3
      \<longrightarrow> parseDuration (Str t) = Inr (Fin 0))
   \<and> (\<exists>n. parseDuration (Str t) = Inr n)
   \<and> ((length (split_on CHR '':'' t) = 2 \<or> length (split_on CHR '':'' t) = 3)
        \<and> list_ex non_numeric (split_on CHR '':'' t)
      \<longrightarrow> parseDuration (Str t) = Inr NaN)
   \<and> parseDuration (Str ''5:xx'') = Inr NaN"
proof -
  have "parseDuration Undefined = Inr (Fin 0)" "parseDuration Null = Inr (Fin 0)"
    "parseDuration (Str []) = Inr (Fin 0)"
    by (simp_all add: parseDuration_def)
  moreover note duration_examples(1,2,4)
  moreover have "decimal_field h \<and> decimal_field m \<and> decimal_field s
        \<and> 3600 * field_value h + 60 * field_value m + field_value s \<le> max_exact
      \<longrightarrow> parseDuration (Str (h @ '':'' @ m @ '':'' @ s))
            = Inr (Fin (3600 * field_value h + 60 * field_value m + field_value s))"
    using duration3 by blast
  moreover have "decimal_field m \<and> decimal_field s \<and> 60 * field_value m + field_value s \<le> max_exact
      \<longrightarrow> parseDuration (Str (m @ '':'' @ s)) = Inr (Fin (60 * field_value m + field_value s))"
    using duration2 by blast
  moreover have "length (split_on CHR '':'' t) \<noteq> 2 \<and> length (split_on CHR '':'' t) \<noteq> 3
      \<longrightarrow> parseDuration (Str t) = Inr (Fin 0)"
    using duration_other by blast
  moreover note duration_total [of t]
  moreover have "(length (split_on CHR '':'' t) = 2 \<or> length (split_on CHR '':'' t) = 3)
        \<and> list_ex non_numeric (split_on CHR '':'' t)
      \<longrightarrow> parseDuration (Str t) = Inr NaN"
    using duration_nan by blast
  moreover note duration_examples(3)
  ultimately show ?thesis by (intro conjI)
qed

theorem parse_duration_witness:
  "decimal_field ''1'' \<and> decimal_field ''02'' \<and> decimal_field ''03''
   \<and> 3600 * field_value ''1'' + 60 * field_value ''02'' + field_value ''03'' \<le> max_exact
   \<and> parseDuration (Str (''1'' @ '':'' @ ''02'' @ '':'' @ ''03'')) = Inr (Fin 3723)
   \<and> 60 * field_value ''02'' + field_value ''03'' \<le> max_exact
   \<and> parseDuration (Str (''02'' @ '':'' @ ''03'')) = Inr (Fin 123)
   \<and> decimal_field '' '' \<and> parseDuration (Str (''02'' @ '':'' @ '' '')) = Inr (Fin 120)
   \<and> length (split_on CHR '':'' ''abc'') \<noteq> 2 \<and> length (split_on CHR '':'' ''abc'') \<noteq> 3
   \<and> parseDuration (Str ''abc'') = Inr (Fin 0)
   \<and> length (split_on CHR '':'' ''1:2:3x'') = 3
   \<and> list_ex non_numeric (split_on CHR '':'' ''1:2:3x'')
   \<and> parseDuration (Str ''1:2:3x'') = Inr NaN"
proof -
  have f: "decimal_field ''1''" "decimal_field ''02''" "decimal_field ''03''" "decimal_field '' ''"
    by (simp_all add: decimal_field_def trim_def is_ws_def is_digit_def)
  have v: "field_value ''1'' = 1" "field_value ''02'' = 2" "field_value ''03'' = 3"
    "field_value '' '' = 0" "(3723::int) \<le> max_exact" "(123::int) \<le> max_exact"
    "(120::int) \<le> max_exact"
    by (simp_all add: field_value_def trim_def is_ws_def dec_value_def digit_val_def max_exact_def)
  have l: "length (split_on CHR '':'' ''abc'') = 1" by simp
  have k: "length (split_on CHR '':'' ''1:2:3x'') = 3" by simp
  have y: "non_numeric ''3x''"
    by (simp add: non_numeric_def number_eval)
  then have x: "list_ex non_numeric (split_on CHR '':'' ''1:2:3x'')"
    by simp
  note i1 = parse_duration [of "''1''" "''02''" "''03''" "''abc''"]
  note i2 = parse_duration [of "''1''" "''02''" "'' ''" "''1:2:3x''"]
  from i1 f v have 1: "parseDuration (Str (''1'' @ '':'' @ ''02'' @ '':'' @ ''03'')) = Inr (Fin 3723)"
    by simp
  from i1 f v have 2: "parseDuration (Str (''02'' @ '':'' @ ''03'')) = Inr (Fin 123)"
    by simp
  from i2 f v have 3: "parseDuration (Str (''02'' @ '':'' @ '' '')) = Inr (Fin 120)"
    by simp
  from i1 l have 4: "parseDuration (Str ''abc'') = Inr (Fin 0)" by simp
  from i2 k y have 5: "parseDuration (Str ''1:2:3x'') = Inr NaN" by simp
  from f v l k x 1 2 3 4 5 show ?thesis by simp
qed

text \<open>
  The claim as written fails on a component that is not a number: the result is \<open>NaN\<close>,
  not zero.
\<close>

theorem parse_duration_counterexample:
  "parseDuration (Str ''5:xx'') \<noteq> Inr (Fin 0)"
  by (simp add: parseDuration_def number_eval)

section \<open>The calendar expansion and the resolution of image paths\<close>

text \<open>
  Claim C7. For a recurring definition with a start and an end, the expansion
  materializes the occurrences of the rule whose start lies between the build time and
  seven days later, both bounds included, and no other; the end of every materialized
  occurrence is its start plus the duration of the definition, end minus start.
\<close>

theorem recurring_occurrences:
  "ev_start event = Some s \<and> ev_end event = Some e \<longrightarrow>
     map cal_start (expand_recurring fmt now event rule)
       = filter (\<lambda>d. now \<le> d \<and> d \<le> now + 7 * 24 * 60 * 60 * 1000) rule
     \<and> (\<forall>ev\<in>set (expand_recurring fmt now event rule). cal_end ev = Some (cal_start ev + (e - s)))
     \<and> (ev_type event = ''VEVENT'' \<and> ev_rrule event = Some rule
          \<longrightarrow> event_entries fmt now event = expand_recurring fmt now event rule)"
proof
  assume a: "ev_start event = Some s \<and> ev_end event = Some e"
  then have x: "expand_recurring fmt now event rule
      = map (occurrence fmt event (e - s)) (between rule now (now + sevenDays) True)"
    by (simp add: expand_recurring_def)
  have 1: "map cal_start (expand_recurring fmt now event rule)
       = filter (\<lambda>d. now \<le> d \<and> d \<le> now + 7 * 24 * 60 * 60 * 1000) rule"
    unfolding x by (simp add: between_def sevenDays_def occurrence_def Let_def comp_def)
  have 2: "\<forall>ev\<in>set (expand_recurring fmt now event rule). cal_end ev = Some (cal_start ev + (e - s))"
    unfolding x by (auto simp: occurrence_def Let_def)
  have 3: "ev_type event = ''VEVENT'' \<and> ev_rrule event = Some rule
          \<longrightarrow> event_entries fmt now event = expand_recurring fmt now event rule"
    by (simp add: event_entries_def)
  from 1 2 3 show "map cal_start (expand_recurring fmt now event rule)
       = filter (\<lambda>d. now \<le> d \<and> d \<le> now + 7 * 24 * 60 * 60 * 1000) rule
     \<and> (\<forall>ev\<in>set (expand_recurring fmt now event rule). cal_end ev = Some (cal_start ev + (e - s)))
     \<and> (ev_type event = ''VEVENT'' \<and> ev_rrule event = Some rule
          \<longrightarrow> event_entries fmt now event = expand_recurring fmt now event rule)"
    by blast
qed

theorem recurring_occurrences_witness:
  "ev_start weekly_event = Some 0 \<and> ev_end weekly_event = Some 3600000
   \<and> ev_type weekly_event = ''VEVENT''
   \<and> ev_rrule weekly_event = Some [0, 1000, 5000, 604801000, 604802000]
   \<and> map cal_start (event_entries no_format 1000 weekly_event) = [1000, 5000, 604801000]
   \<and> map cal_end (event_entries no_format 1000 weekly_event)
        = [Some 3601000, Some 3605000, Some 608401000]"
proof -
  have h: "ev_start weekly_event = Some 0" "ev_end weekly_event = Some 3600000"
    "ev_type weekly_event = ''VEVENT''"
    "ev_rrule weekly_event = Some [0, 1000, 5000, 604801000, 604802000]"
    by (simp_all add: weekly_event_def)
  note inst = recurring_occurrences [of weekly_event 0 3600000 no_format 1000
      "[0, 1000, 5000, 604801000, 604802000]"]
  from inst h have en: "event_entries no_format 1000 weekly_event
      = expand_recurring no_format 1000 weekly_event [0, 1000, 5000, 604801000, 604802000]"
    by blast
  from inst h have st: "map cal_start (event_entries no_format 1000 weekly_event)
      = [1000, 5000, 604801000]"
    unfolding en by simp
  from inst h have "\<forall>ev\<in>set (event_entries no_format 1000 weekly_event).
      cal_end ev = Some (cal_start ev + 3600000)"
    unfolding en by simp
  then have "map cal_end (event_entries no_format 1000 weekly_event)
      = map (\<lambda>t. Some (t + 3600000)) (map cal_start (event_entries no_format 1000 weekly_event))"
    by (simp add: comp_def)
  with st have "map cal_end (event_entries no_format 1000 weekly_event)
        = [Some 3601000, Some 3605000, Some 608401000]" by simp
  with st h show ?thesis by simp
qed

text \<open>
  Claim C3, the code at the failing input. The photo exists in the source tree only, and
  the path the code resolves is the one under the generation output: the promise that
  stands as the condition is truthy whatever the disk holds, so the source tree is never
  tried, and \<^verbatim>\<open>processImage\<close> then finds no file.
\<close>

theorem getImagePath_no_fallback:
  "source_only_disk ''_site/assets/images/photo.jpg'' = None
   \<and> source_only_disk ''src/assets/images/photo.jpg'' \<noteq> None
   \<and> path_join [''src'', ''/assets/images/photo.jpg''] = ''src/assets/images/photo.jpg''
   \<and> getImagePath source_only_disk ''/assets/images/photo.jpg'' ''_site/index.html''
       = ''_site/assets/images/photo.jpg''
   \<and> processImage source_only_disk encode ''/assets/images/photo.jpg'' ''_site/index.html'' = None"
proof -
  have p: "path_join [SITE_DIR, ''/assets/images/photo.jpg''] = ''_site/assets/images/photo.jpg''"
    "path_join [''src'', ''/assets/images/photo.jpg''] = ''src/assets/images/photo.jpg''"
    by (simp_all add: path_join_def path_normalize_def SITE_DIR_def Let_def)
  have d: "source_only_disk ''_site/assets/images/photo.jpg'' = None"
    "source_only_disk ''src/assets/images/photo.jpg'' \<noteq> None"
    by (simp_all add: source_only_disk_def)
  have g: "getImagePath source_only_disk ''/assets/images/photo.jpg'' ''_site/index.html''
       = ''_site/assets/images/photo.jpg''"
    by (simp add: getImagePath_def truthy_promise_def Let_def p)
  have "processImage source_only_disk encode ''/assets/images/photo.jpg'' ''_site/index.html'' = None"
    by (simp add: processImage_def g d fs_access_def await_def Let_def)
  with p d g show ?thesis by simp
qed

section \<open>The image rewriter: skip policy and write-back\<close>

lemma occurs_in_prefix: "prefix pat s \<Longrightarrow> occurs_in pat s"
  by (cases s) simp_all

lemma occurs_in_append: "occurs_in pat (a @ pat @ b)"
  by (induction a) (simp_all add: occurs_in_prefix)

lemma pattern_test_logo: "pattern_test ''logo'' (a @ ''logo'' @ b)"
proof -
  have "toLowerCase ''logo'' = ''logo''" by (simp add: lower_eval)
  then have "toLowerCase (a @ ''logo'' @ b) = toLowerCase a @ ''logo'' @ toLowerCase b"
    by (simp only: toLowerCase_append)
  then show ?thesis unfolding pattern_test_def by (simp only: occurs_in_append)
qed

lemma skip_pattern:
  "pattern_test ''favicon'' src \<or> pattern_test ''logo'' src \<or> pattern_test ''icon'' src
     \<Longrightarrow> shouldSkipImage src width height"
  by (auto simp: shouldSkipImage_def SKIP_PATTERNS_def)

lemma skip_small:
  "width = Some w \<Longrightarrow> height = Some h \<Longrightarrow> w \<noteq> 0 \<Longrightarrow> h \<noteq> 0 \<Longrightarrow> w < 100 \<or> h < 100
     \<Longrightarrow> shouldSkipImage src width height"
  by (simp add: shouldSkipImage_def)

lemma skip_svg: "suffix ''.svg'' src \<Longrightarrow> shouldSkipImage src width height"
  by (simp add: shouldSkipImage_def)

lemma skip_external:
  "prefix ''http://'' src \<or> prefix ''https://'' src \<Longrightarrow> shouldSkipImage src width height"
  by (auto simp: shouldSkipImage_def)

lemma attr_dim_50: "attr_dim (Some ''50'') = Some 50"
  by (simp add: attr_dim_def parseInt_def Let_def is_ws_def is_digit_def dec_value_def digit_val_def)

lemma skip_50: "shouldSkipImage src (attr_dim (Some ''50'')) (attr_dim (Some ''50''))"
  by (simp add: attr_dim_50 skip_small)

lemma img_step_unqualified:
  assumes "\<not> qualifies d encode filePath (Img img)"
  shows "\<exists>s. img_step d encode filePath img = Inr (Img img, 0, s)"
  using assms
  by (cases "map_of img ''src''")
    (auto simp: img_step_def qualifies_def Let_def)

lemma img_step_qualified:
  assumes "qualifies d encode filePath (Img img)" and "img_step d encode filePath img = Inr (n, p, s)"
  shows "p = 1 \<and> (\<exists>html. n = Markup html)"
  using assms
  by (cases "map_of img ''src''")
    (auto simp: img_step_def qualifies_def Let_def split: sum.splits)

lemma process_nodes_unqualified:
  "\<not> list_ex (qualifies d encode filePath) doc
     \<Longrightarrow> \<exists>s. process_nodes d encode filePath doc = Inr (doc, 0, s)"
proof (induction doc)
  case Nil
  show ?case by simp
next
  case (Cons n doc)
  then obtain s where r: "process_nodes d encode filePath doc = Inr (doc, 0, s)" by auto
  show ?case
  proof (cases n)
    case (Img img)
    with Cons.prems have "\<not> qualifies d encode filePath (Img img)" by simp
    from img_step_unqualified [OF this] obtain s' where
      "img_step d encode filePath img = Inr (Img img, 0, s')" by blast
    with Img r show ?thesis by simp
  next
    case (Markup m)
    with r show ?thesis by simp
  qed
qed

lemma process_nodes_count:
  "process_nodes d encode filePath doc = Inr (doc', p, s)
     \<Longrightarrow> (0 < p \<longleftrightarrow> list_ex (qualifies d encode filePath) doc)"
proof (induction doc arbitrary: doc' p s)
  case Nil
  then show ?case by simp
next
  case (Cons n doc)
  show ?case
  proof (cases n)
    case (Markup m)
    with Cons.prems obtain ns where "process_nodes d encode filePath doc = Inr (ns, p, s)"
      by (auto split: sum.splits)
    from Cons.IH [OF this] Markup show ?thesis by (simp add: qualifies_def)
  next
    case (Img img)
    with Cons.prems obtain n' p1 s1 ns p2 s2 where
      st: "img_step d encode filePath img = Inr (n', p1, s1)"
      and r: "process_nodes d encode filePath doc = Inr (ns, p2, s2)"
      and p: "p = p1 + p2"
      by (auto split: sum.splits)
    note ih = Cons.IH [OF r]
    show ?thesis
    proof (cases "qualifies d encode filePath (Img img)")
      case True
      from img_step_qualified [OF True st] have "p1 = 1" by simp
      with p True Img show ?thesis by simp
    next
      case False
      from img_step_unqualified [OF False] st have "p1 = 0" by auto
      with p ih False Img show ?thesis by simp
    qed
  qed
qed

lemma process_nodes_step:
  assumes "process_nodes d encode filePath (n # doc) = Inr (doc', p, s)"
  shows "\<exists>n' ns p2 s2. process_nodes d encode filePath doc = Inr (ns, p2, s2)
           \<and> doc' = n' # ns \<and> (\<not> qualifies d encode filePath n \<longrightarrow> n' = n)"
proof (cases n)
  case (Markup m)
  with assms show ?thesis by (auto split: sum.splits)
next
  case (Img img)
  with assms obtain n' p1 s1 ns p2 s2 where
    st: "img_step d encode filePath img = Inr (n', p1, s1)"
    and r: "process_nodes d encode filePath doc = Inr (ns, p2, s2)"
    and d': "doc' = n' # ns"
    by (auto split: sum.splits)
  have "\<not> qualifies d encode filePath n \<longrightarrow> n' = n"
    using img_step_unqualified [of d encode filePath img] st Img by auto
  with r d' show ?thesis by blast
qed

lemma process_nodes_keeps:
  "process_nodes d encode filePath doc = Inr (doc', p, s) \<Longrightarrow> i < length doc
     \<Longrightarrow> \<not> qualifies d encode filePath (doc ! i) \<Longrightarrow> doc' ! i = doc ! i"
proof (induction doc arbitrary: doc' p s i)
  case Nil
  then show ?case by simp
next
  case (Cons n doc)
  from process_nodes_step [OF Cons.prems(1)] obtain n' ns p2 s2 where
    r: "process_nodes d encode filePath doc = Inr (ns, p2, s2)" and d': "doc' = n' # ns"
    and hd: "\<not> qualifies d encode filePath n \<longrightarrow> n' = n"
    by blast
  show ?case
  proof (cases i)
    case 0
    with Cons.prems(3) hd d' show ?thesis by simp
  next
    case (Suc j)
    with Cons.prems have "j < length doc" "\<not> qualifies d encode filePath (doc ! j)" by simp_all
    from Cons.IH [OF r this] Suc d' show ?thesis by simp
  qed
qed

lemma skipped_not_qualified:
  "map_of img ''src'' = Some src
     \<Longrightarrow> shouldSkipImage src (attr_dim (map_of img ''width'')) (attr_dim (map_of img ''height''))
     \<Longrightarrow> \<not> qualifies d encode filePath (Img img)"
  by (simp add: qualifies_def)

text \<open>
  Claim C8, as the code has it. An image is skipped when its path contains \<open>favicon\<close>,
  \<open>logo\<close> or \<open>icon\<close> in any letter case, whatever its dimensions; when both its width
  and its height are declared as non-zero integers and one of them is below 100 (so
  width 50 and height 50 always is); when its path ends in \<open>.svg\<close>; or when its path
  starts with \<open>http://\<close> or \<open>https://\<close>. A skipped image is still the same image
  element after the file has been processed.
\<close>

theorem skip_policy:
  "(pattern_test ''favicon'' src \<or> pattern_test ''logo'' src \<or> pattern_test ''icon'' src
      \<longrightarrow> shouldSkipImage src width height)
   \<and> shouldSkipImage (a @ ''logo'' @ b) width height
   \<and> (width = Some w \<and> height = Some h \<and> w \<noteq> 0 \<and> h \<noteq> 0 \<and> (w < 100 \<or> h < 100)
      \<longrightarrow> shouldSkipImage src width height)
   \<and> shouldSkipImage src (attr_dim (Some ''50'')) (attr_dim (Some ''50''))
   \<and> (suffix ''.svg'' src \<longrightarrow> shouldSkipImage src width height)
   \<and> (prefix ''http://'' src \<or> prefix ''https://'' src \<longrightarrow> shouldSkipImage src width height)
   \<and> (process_nodes d encode filePath doc = Inr (doc', p, s) \<and> i < length doc
        \<and> doc ! i = Img img \<and> map_of img ''src'' = Some src
        \<and> shouldSkipImage src (attr_dim (map_of img ''width'')) (attr_dim (map_of img ''height''))
      \<longrightarrow> doc' ! i = Img img)"
proof -
  have 1: "pattern_test ''favicon'' src \<or> pattern_test ''logo'' src \<or> pattern_test ''icon'' src
      \<longrightarrow> shouldSkipImage src width height"
    using skip_pattern by blast
  have 2: "shouldSkipImage (a @ ''logo'' @ b) width height"
    using skip_pattern pattern_test_logo by blast
  have 3: "width = Some w \<and> height = Some h \<and> w \<noteq> 0 \<and> h \<noteq> 0 \<and> (w < 100 \<or> h < 100)
      \<longrightarrow> shouldSkipImage src width height"
    using skip_small by blast
  have 4: "suffix ''.svg'' src \<longrightarrow> shouldSkipImage src width height"
    using skip_svg by blast
  have 5: "prefix ''http://'' src \<or> prefix ''https://'' src \<longrightarrow> shouldSkipImage src width height"
    using skip_external by blast
  have 6: "process_nodes d encode filePath doc = Inr (doc', p, s) \<and> i < length doc
        \<and> doc ! i = Img img \<and> map_of img ''src'' = Some src
        \<and> shouldSkipImage src (attr_dim (map_of img ''width'')) (attr_dim (map_of img ''height''))
      \<longrightarrow> doc' ! i = Img img"
    using process_nodes_keeps [of d encode filePath doc doc' p s i]
      skipped_not_qualified [of img src d encode filePath]
    by auto
  from 1 2 3 skip_50 4 5 6 show ?thesis by (intro conjI)
qed


lemmas skip_eval = shouldSkipImage_def SKIP_PATTERNS_def pattern_test_def attr_dim_def
  parseInt_def Let_def is_ws_def is_digit_def dec_value_def digit_val_def suffix_to_prefix
  lower_eval

theorem skip_policy_witness:
  "pattern_test ''logo'' ''/img/Site-LOGO.png''
   \<and> shouldSkipImage ''/img/Site-LOGO.png'' (Some 800) (Some 600)
   \<and> shouldSkipImage ''photo.jpg'' (Some 640) (Some 48)
   \<and> suffix ''.svg'' ''/img/map.svg'' \<and> shouldSkipImage ''/img/map.svg'' None None
   \<and> prefix ''https://'' ''https://cdn.example.org/a.jpg''
   \<and> shouldSkipImage ''https://cdn.example.org/a.jpg'' None None
   \<and> process_nodes site_disk two_formats ''_site/index.html'' [Img [(''src'', ''logo.png'')]]
        = Inr ([Img [(''src'', ''logo.png'')]], 0, 1)"
proof -
  have a: "pattern_test ''logo'' ''/img/Site-LOGO.png''"
    by (simp add: pattern_test_def lower_eval)
  have b: "suffix ''.svg'' ''/img/map.svg''" "prefix ''https://'' ''https://cdn.example.org/a.jpg''"
    by (simp_all add: suffix_to_prefix)
  have c: "shouldSkipImage ''logo.png'' (attr_dim (map_of [(''src'', ''logo.png'')] ''width''))
             (attr_dim (map_of [(''src'', ''logo.png'')] ''height''))"
    by (simp add: skip_eval)
  have r: "process_nodes site_disk two_formats ''_site/index.html'' [Img [(''src'', ''logo.png'')]]
      = Inr ([Img [(''src'', ''logo.png'')]], 0, 1)"
    using c by (simp add: img_step_def Let_def)
  from skip_policy [of "''/img/Site-LOGO.png''" "Some 800" "Some 600"] a
  have 1: "shouldSkipImage ''/img/Site-LOGO.png'' (Some 800) (Some 600)" by blast
  from skip_policy [of "''photo.jpg''" "Some 640" "Some 48" _ _ 640 48]
  have 2: "shouldSkipImage ''photo.jpg'' (Some 640) (Some 48)" by simp
  from skip_policy [of "''/img/map.svg''" None None] b
  have 3: "shouldSkipImage ''/img/map.svg'' None None" by blast
  from skip_policy [of "''https://cdn.example.org/a.jpg''" None None] b
  have 4: "shouldSkipImage ''https://cdn.example.org/a.jpg'' None None" by blast
  from skip_policy [of "''logo.png''" None None _ _ 0 0 site_disk two_formats "''_site/index.html''"
      "[Img [(''src'', ''logo.png'')]]" "[Img [(''src'', ''logo.png'')]]" 0 1 0 "[(''src'', ''logo.png'')]"] r c
  have 5: "[Img [(''src'', ''logo.png'')]] ! 0 = Img [(''src'', ''logo.png'')]" by simp
  from a b 1 2 3 4 r show ?thesis by (intro conjI)
qed

text \<open>
  The claim as written fails on an image that declares a width of 50 and no height, and
  on one that declares a width of 0 and a height of 50: neither is skipped, and with the
  photo on the disk the first one is transformed.
\<close>

theorem skip_policy_counterexample:
  "\<not> shouldSkipImage ''photo.jpg'' (attr_dim (Some ''50'')) (attr_dim None)
   \<and> \<not> shouldSkipImage ''photo.jpg'' (attr_dim (Some ''0'')) (attr_dim (Some ''50''))
   \<and> qualifies site_disk two_formats ''_site/index.html''
        (Img [(''src'', ''photo.jpg''), (''width'', ''50'')])"
proof -
  have 1: "\<not> shouldSkipImage ''photo.jpg'' (attr_dim (Some ''50'')) (attr_dim None)"
    by (simp add: skip_eval)
  have 2: "\<not> shouldSkipImage ''photo.jpg'' (attr_dim (Some ''0'')) (attr_dim (Some ''50''))"
    by (simp add: skip_eval)
  have p: "getImagePath site_disk ''photo.jpg'' ''_site/index.html'' = ''_site/photo.jpg''"
    by (simp add: getImagePath_def path_dirname_def path_join_def path_normalize_def Let_def)
  have e: "site_disk ''_site/photo.jpg'' = Some ''JFIF''" by (simp add: site_disk_def)
  have "processImage site_disk two_formats ''photo.jpg'' ''_site/index.html'' \<noteq> None"
    by (simp add: processImage_def p Let_def e fs_access_def await_def two_formats_def)
  with 1 have 3: "qualifies site_disk two_formats ''_site/index.html''
        (Img [(''src'', ''photo.jpg''), (''width'', ''50'')])"
    by (simp add: qualifies_def)
  from 1 2 3 show ?thesis by (intro conjI)
qed

lemma qualifies_is_img: "qualifies d encode filePath n \<Longrightarrow> is_img n"
  by (cases n) (simp_all add: qualifies_def)

lemma untouched:
  assumes f: "files st filePath = Some html"
    and n: "\<not> list_ex (qualifies (files st) encode filePath) (load html)"
  shows "processHtmlFile load render encode st filePath = Inr st"
proof -
  from process_nodes_unqualified [OF n] obtain s where
    "process_nodes (files st) encode filePath (load html) = Inr (load html, 0, s)" by blast
  with f show ?thesis by (simp add: processHtmlFile_def Let_def)
qed

lemma written:
  assumes f: "files st filePath = Some html"
    and r: "processHtmlFile load render encode st filePath = Inr st'"
  shows "(list_ex (qualifies (files st) encode filePath) (load html)
            \<longrightarrow> write_log st' = write_log st @ [filePath])
         \<and> (\<not> list_ex (qualifies (files st) encode filePath) (load html) \<longrightarrow> st' = st)"
proof (cases "list_ex (qualifies (files st) encode filePath) (load html)")
  case False
  from untouched [where load = load and render = render, OF f False] r
  show ?thesis using False by simp
next
  case True
  then have im: "list_ex is_img (load html)"
    unfolding list_ex_iff using qualifies_is_img by blast
  from f r im obtain doc' p s where
    pn: "process_nodes (files st) encode filePath (load html) = Inr (doc', p, s)"
    by (auto simp: processHtmlFile_def Let_def split: sum.splits)
  from process_nodes_count [OF pn] True have "0 < p" by simp
  with f r im pn have "st' = st\<lparr> files := (files st)(filePath \<mapsto> render doc'),
                                  write_log := write_log st @ [filePath] \<rparr>"
    by (simp add: processHtmlFile_def Let_def)
  with True show ?thesis by simp
qed

text \<open>
  Claim C9. A file in which no image is transformed is not written: processing it
  succeeds and leaves the file system as it was, so the bytes of the file are the same.
  When processing succeeds and the file was written, or its bytes differ, at least one
  of its images was transformed; and a file with a transformed image is written once.
\<close>

theorem write_only_if_transformed:
  "files st filePath = Some html \<longrightarrow>
     (\<not> list_ex (qualifies (files st) encode filePath) (load html)
        \<longrightarrow> processHtmlFile load render encode st filePath = Inr st)
     \<and> (processHtmlFile load render encode st filePath = Inr st' \<longrightarrow>
          (write_log st' \<noteq> write_log st
             \<longrightarrow> list_ex (qualifies (files st) encode filePath) (load html))
          \<and> (files st' filePath \<noteq> Some html
             \<longrightarrow> list_ex (qualifies (files st) encode filePath) (load html))
          \<and> (list_ex (qualifies (files st) encode filePath) (load html)
             \<longrightarrow> write_log st' = write_log st @ [filePath]))"
proof
  assume f: "files st filePath = Some html"
  have 1: "\<not> list_ex (qualifies (files st) encode filePath) (load html)
        \<longrightarrow> processHtmlFile load render encode st filePath = Inr st"
    using untouched [where load = load and render = render, OF f] by blast
  have 2: "processHtmlFile load render encode st filePath = Inr st' \<longrightarrow>
          (write_log st' \<noteq> write_log st
             \<longrightarrow> list_ex (qualifies (files st) encode filePath) (load html))
          \<and> (files st' filePath \<noteq> Some html
             \<longrightarrow> list_ex (qualifies (files st) encode filePath) (load html))
          \<and> (list_ex (qualifies (files st) encode filePath) (load html)
             \<longrightarrow> write_log st' = write_log st @ [filePath])"
    using written [where load = load and render = render, OF f] f by auto
  from 1 2 show "(\<not> list_ex (qualifies (files st) encode filePath) (load html)
        \<longrightarrow> processHtmlFile load render encode st filePath = Inr st)
     \<and> (processHtmlFile load render encode st filePath = Inr st' \<longrightarrow>
          (write_log st' \<noteq> write_log st
             \<longrightarrow> list_ex (qualifies (files st) encode filePath) (load html))
          \<and> (files st' filePath \<noteq> Some html
             \<longrightarrow> list_ex (qualifies (files st) encode filePath) (load html))
          \<and> (list_ex (qualifies (files st) encode filePath) (load html)
             \<longrightarrow> write_log st' = write_log st @ [filePath]))"
    by (rule conjI)
qed


theorem write_only_if_transformed_witness:
  "files \<lparr>files = logo_disk, write_log = []\<rparr> ''_site/index.html'' = Some ''logo.png''
   \<and> \<not> list_ex (qualifies logo_disk two_formats ''_site/index.html'') (single_image ''logo.png'')
   \<and> processHtmlFile single_image print_nodes two_formats \<lparr>files = logo_disk, write_log = []\<rparr>
         ''_site/index.html''
       = Inr \<lparr>files = logo_disk, write_log = []\<rparr>
   \<and> files \<lparr>files = site_disk, write_log = []\<rparr> ''_site/index.html'' = Some ''photo.jpg''
   \<and> list_ex (qualifies site_disk two_formats ''_site/index.html'') (single_image ''photo.jpg'')
   \<and> (\<exists>st'. processHtmlFile single_image print_nodes two_formats
                 \<lparr>files = site_disk, write_log = []\<rparr> ''_site/index.html'' = Inr st'
              \<and> write_log st' = [''_site/index.html''])"
proof -
  let ?logo = "\<lparr>files = logo_disk, write_log = []\<rparr>"
  let ?site = "\<lparr>files = site_disk, write_log = []\<rparr>"
  have f1: "files ?logo ''_site/index.html'' = Some ''logo.png''" by (simp add: logo_disk_def)
  have sk: "shouldSkipImage ''logo.png'' (attr_dim None) (attr_dim None)" by (simp add: skip_eval)
  have q1: "\<not> list_ex (qualifies (files ?logo) two_formats ''_site/index.html'') (single_image ''logo.png'')"
    using sk by (simp add: single_image_def qualifies_def)
  note a = write_only_if_transformed [of ?logo "''_site/index.html''" "''logo.png''" two_formats
      single_image print_nodes ?logo]
  from a f1 q1 have r1: "processHtmlFile single_image print_nodes two_formats ?logo ''_site/index.html''
      = Inr ?logo" by blast
  have f2: "files ?site ''_site/index.html'' = Some ''photo.jpg''" by (simp add: site_disk_def)
  have ns: "\<not> shouldSkipImage ''photo.jpg'' (attr_dim None) (attr_dim None)" by (simp add: skip_eval)
  have p: "getImagePath site_disk ''photo.jpg'' ''_site/index.html'' = ''_site/photo.jpg''"
    by (simp add: getImagePath_def path_dirname_def path_join_def path_normalize_def Let_def)
  have e: "site_disk ''_site/photo.jpg'' = Some ''JFIF''" by (simp add: site_disk_def)
  have pi: "processImage site_disk two_formats ''photo.jpg'' ''_site/index.html''
      = Some (projr (two_formats ''_site/photo.jpg''))"
    by (simp add: processImage_def p Let_def e fs_access_def await_def two_formats_def)
  have g: "\<exists>html. generatePictureHtml (projr (two_formats ''_site/photo.jpg'')) [(''src'', ''photo.jpg'')]
      = Inr html"
    by (simp add: two_formats_def generatePictureHtml_def Let_def)
  have q2: "list_ex (qualifies (files ?site) two_formats ''_site/index.html'') (single_image ''photo.jpg'')"
    using ns pi by (simp add: single_image_def qualifies_def)
  from g obtain html where g': "generatePictureHtml (projr (two_formats ''_site/photo.jpg''))
      [(''src'', ''photo.jpg'')] = Inr html" by blast
  have st: "img_step site_disk two_formats ''_site/index.html'' [(''src'', ''photo.jpg'')]
      = Inr (Markup html, 1, 0)"
    using ns pi g' by (simp add: img_step_def Let_def)
  have "\<exists>st'. processHtmlFile single_image print_nodes two_formats ?site ''_site/index.html'' = Inr st'"
    using f2 st by (simp add: processHtmlFile_def single_image_def Let_def)
  then obtain st' where r2: "processHtmlFile single_image print_nodes two_formats ?site
      ''_site/index.html'' = Inr st'" by blast
  note b = write_only_if_transformed [of ?site "''_site/index.html''" "''photo.jpg''" two_formats
      single_image print_nodes st']
  from b f2 q2 r2 have "write_log st' = write_log ?site @ [''_site/index.html'']" by blast
  then have w: "write_log st' = [''_site/index.html'']" by simp
  from q1 have q1': "\<not> list_ex (qualifies logo_disk two_formats ''_site/index.html'') (single_image ''logo.png'')"
    by simp
  from q2 have q2': "list_ex (qualifies site_disk two_formats ''_site/index.html'') (single_image ''photo.jpg'')"
    by simp
  from r2 w have x: "\<exists>st'. processHtmlFile single_image print_nodes two_formats ?site
      ''_site/index.html'' = Inr st' \<and> write_log st' = [''_site/index.html'']" by blast
  from f1 q1' r1 f2 q2' x show ?thesis by (intro conjI)
qed

end
